theory Spec2Isabelle
  imports Main "HOL-Library.Word"
begin

unbundle bit_operations_syntax

section \<open>Machine values\<close>

text \<open>
  Bytes are \<open>unsigned char\<close>. Check values and the length totals are \<open>unsigned long\<close>
  in the source; every format stores their low 32 bits only, and no operation of the source
  on them depends on bits above bit 31, so they are 32-bit words here. Block lengths
  (\<open>size_t\<close>) are natural numbers: the source only compares, halves and subtracts them.
\<close>

type_synonym byte = "8 word"
type_synonym ulong = "32 word"

section \<open>Configuration (the globals of pigz.c)\<close>

text \<open>
  \<open>form\<close>: gzip = 0, zlib = 1, zip = 2 or 3. \<open>level\<close>: 0..9, or
  \<open>Z_DEFAULT_COMPRESSION\<close> = -1. \<open>name\<close>: the C string for the header, or NULL.
  \<open>bsize\<close> is the global \<open>size\<close>.
\<close>

record config =
  form :: int
  level :: int
  name :: "byte list option"
  mtime :: int
  procs :: nat
  dict :: bool
  bsize :: nat

definition Z_DEFAULT_COMPRESSION :: int where
  "Z_DEFAULT_COMPRESSION = - 1"

text \<open>The broken-down time that \<open>localtime\<close> returns, and the clock.\<close>

record tm =
  tm_year :: int
  tm_mon :: int
  tm_mday :: int
  tm_hour :: int
  tm_min :: int
  tm_sec :: int

record clock =
  time_now :: int
  localtime :: "int \<Rightarrow> tm"

section \<open>Container framing\<close>

definition time2dos :: "clock \<Rightarrow> int \<Rightarrow> int" where
  "time2dos clk t0 =
     (let t = (if t0 = 0 then time_now clk else t0);
          tm = localtime clk t
      in if tm_year tm < 80 \<or> tm_year tm > 207 then 0
         else push_bit 25 (tm_year tm - 80)
            + push_bit 21 (tm_mon tm + 1)
            + push_bit 16 (tm_mday tm)
            + push_bit 11 (tm_hour tm)
            + push_bit 5 (tm_min tm)
            + drop_bit 1 (tm_sec tm + 1))"

text \<open>
  \<open>PUT2L\<close>, \<open>PUT4L\<close>, \<open>PUT4M\<close>: each store is an assignment to an
  \<open>unsigned char\<close>, which keeps the low eight bits.
\<close>

definition PUT2L :: "int \<Rightarrow> byte list" where
  "PUT2L b = [word_of_int (b AND 0xff), word_of_int (drop_bit 8 b)]"

definition PUT4L :: "int \<Rightarrow> byte list" where
  "PUT4L b = PUT2L (b AND 0xffff) @ PUT2L (drop_bit 16 b)"

definition PUT4M :: "int \<Rightarrow> byte list" where
  "PUT4M b = [word_of_int (drop_bit 24 b), word_of_int (drop_bit 16 b),
              word_of_int (drop_bit 8 b), word_of_int b]"

definition strlen :: "byte list option \<Rightarrow> nat" where
  "strlen nm = (case nm of None \<Rightarrow> 0 | Some s \<Rightarrow> length s)"

text \<open>
  \<open>put_header\<close> returns the bytes handed to \<open>writen\<close>, in order, and the header
  length it reports.
\<close>

definition put_header :: "clock \<Rightarrow> config \<Rightarrow> byte list \<times> nat" where
  "put_header clk g =
     (if form g > 1 then
        (PUT4L 0x04034b50 @ PUT2L 20 @ PUT2L 8 @ PUT2L 8
           @ PUT4L (time2dos clk (mtime g))
           @ PUT4L 0 @ PUT4L 0 @ PUT4L 0
           @ PUT2L (if name g = None then 1 else int (strlen (name g)))
           @ PUT2L 9
           @ (case name g of None \<Rightarrow> [0x2d] | Some s \<Rightarrow> s)
           @ PUT2L 0x5455 @ PUT2L 5 @ [1] @ PUT4L (mtime g),
         30 + (if name g = None then 1 else strlen (name g)) + 9)
      else if form g \<noteq> 0 then
        (let head0 = (0x78 :: int);
             head1 = (push_bit 6
                        (if level g = 9 then 3
                         else if level g = 1 then 0
                         else if level g \<ge> 6 \<or> level g = Z_DEFAULT_COMPRESSION then 1
                         else (2 :: int))) mod 256;
             head1' = (head1 + (31 - ((push_bit 8 head0 + head1) mod 31))) mod 256
         in ([word_of_int head0, word_of_int head1'], 2))
      else
        ([31, 139, 8, (if name g \<noteq> None then 8 else 0)]
           @ PUT4L (mtime g)
           @ [if level g = 9 then 2 else if level g = 1 then 4 else 0, 3]
           @ (case name g of None \<Rightarrow> [] | Some s \<Rightarrow> s @ [0]),
         10 + (case name g of None \<Rightarrow> 0 | Some s \<Rightarrow> length s + 1)))"

text \<open>\<open>put_trailer\<close> returns the bytes handed to \<open>writen\<close>, in order.\<close>

definition put_trailer :: "clock \<Rightarrow> config \<Rightarrow> ulong \<Rightarrow> ulong \<Rightarrow> ulong \<Rightarrow> nat \<Rightarrow> byte list" where
  "put_trailer clk g ulen clen check head =
     (if form g > 1 then
        PUT4L (uint check) @ PUT4L (uint clen) @ PUT4L (uint ulen)
          @ PUT4L 0x02014b50 @ [63, 255] @ PUT2L 20 @ PUT2L 8 @ PUT2L 8
          @ PUT4L (time2dos clk (mtime g))
          @ PUT4L (uint check) @ PUT4L (uint clen) @ PUT4L (uint ulen)
          @ PUT2L (if name g = None then 1 else int (strlen (name g)))
          @ PUT2L 9 @ PUT2L 0 @ PUT2L 0 @ PUT2L 0 @ PUT4L 0 @ PUT4L 0
          @ (case name g of None \<Rightarrow> [0x2d] | Some s \<Rightarrow> s)
          @ PUT2L 0x5455 @ PUT2L 5 @ [1] @ PUT4L (mtime g)
          @ PUT4L 0x06054b50 @ PUT2L 0 @ PUT2L 0 @ PUT2L 1 @ PUT2L 1
          @ PUT4L (46 + (if name g = None then 1 else int (strlen (name g))) + 9)
          @ PUT4L (int head + uint clen + 12)
          @ PUT2L 0
      else if form g \<noteq> 0 then PUT4M (uint check)
      else PUT4L (uint check) @ PUT4L (uint ulen))"

text \<open>The byte layouts the formats prescribe, for stating the framing claims.\<close>

definition le32 :: "ulong \<Rightarrow> byte list" where
  "le32 w = map (\<lambda>i. ucast (drop_bit (8 * i) w)) [0, 1, 2, 3]"

definition zlib_flevel :: "byte \<Rightarrow> nat" where
  "zlib_flevel b = unat (drop_bit 6 b)"

definition be16 :: "byte list \<Rightarrow> nat" where
  "be16 bs = unat (bs ! 0) * 256 + unat (bs ! 1)"

text \<open>
  The option defaults of \<open>defaults()\<close>, reading standard input with the name and the
  time stamp left out of the header, and a clock that stands at the epoch.
\<close>

definition defaults :: config where
  "defaults = \<lparr>form = 0, level = Z_DEFAULT_COMPRESSION, name = None, mtime = 0,
                procs = 32, dict = True, bsize = 131072\<rparr>"

definition epoch_clock :: clock where
  "epoch_clock = \<lparr>time_now = 0,
     localtime = (\<lambda>t. \<lparr>tm_year = 70, tm_mon = 0, tm_mday = 1, tm_hour = 0, tm_min = 0, tm_sec = 0\<rparr>)\<rparr>"

section \<open>Check values\<close>

text \<open>
  \<open>crc32\<close> and \<open>adler32\<close> are zlib's functions (\<open>zlib.h\<close>), an external library:
  \<open>crc32 crc buf\<close> continues the CRC-32 of RFC 1952 (reflected polynomial
  \<open>0xedb88320\<close>, register complemented on entry and exit) from the running value
  \<open>crc\<close> over \<open>buf\<close>, and \<open>adler32 adler buf\<close> continues the Adler-32 of RFC 1950
  (two sums modulo 65521). With a NULL buffer they return the initial values 0 and 1.
\<close>

definition crc32_bit :: "ulong \<Rightarrow> ulong" where
  "crc32_bit c = (if bit c 0 then drop_bit 1 c XOR 0xedb88320 else drop_bit 1 c)"

definition crc32_byte :: "ulong \<Rightarrow> byte \<Rightarrow> ulong" where
  "crc32_byte c x = (crc32_bit ^^ 8) (c XOR ucast x)"

definition crc32 :: "ulong \<Rightarrow> byte list \<Rightarrow> ulong" where
  "crc32 crc buf = foldl crc32_byte (crc XOR 0xffffffff) buf XOR 0xffffffff"

definition crc32_init :: ulong where
  "crc32_init = 0"

definition adler32_byte :: "nat \<times> nat \<Rightarrow> byte \<Rightarrow> nat \<times> nat" where
  "adler32_byte ab x =
     (let a = (fst ab + unat x) mod 65521; b = (snd ab + a) mod 65521 in (a, b))"

definition adler32 :: "ulong \<Rightarrow> byte list \<Rightarrow> ulong" where
  "adler32 adler buf =
     (let ab = foldl adler32_byte (unat (adler AND 0xffff), unat (drop_bit 16 adler AND 0xffff)) buf
      in push_bit 16 (of_nat (snd ab)) OR of_nat (fst ab))"

definition adler32_init :: ulong where
  "adler32_init = 1"

text \<open>The macros \<open>CHECK\<close> and \<open>COMB\<close> choose by the format.\<close>

definition CHECK :: "config \<Rightarrow> ulong \<Rightarrow> byte list \<Rightarrow> ulong" where
  "CHECK g c buf = (if form g = 1 then adler32 c buf else crc32 c buf)"

definition CHECK_init :: "config \<Rightarrow> ulong" where
  "CHECK_init g = (if form g = 1 then adler32_init else crc32_init)"

subsection \<open>Combining check values\<close>

text \<open>
  \<open>gf2_matrix_times\<close>: the pointer \<open>mat\<close> walks the array (\<open>hd\<close> is \<open>*mat\<close>,
  \<open>tl\<close> is \<open>mat++\<close>) while \<open>vec\<close> is shifted down.
\<close>

function gf2_matrix_times_loop :: "ulong list \<Rightarrow> ulong \<Rightarrow> ulong \<Rightarrow> ulong" where
  "gf2_matrix_times_loop mat vec sm =
     (if vec \<noteq> 0
      then gf2_matrix_times_loop (tl mat) (drop_bit 1 vec)
             (if vec AND 1 \<noteq> 0 then sm XOR hd mat else sm)
      else sm)"
  by pat_completeness auto
termination
proof (relation "measure (\<lambda>(mat, vec, sm). unat vec)")
  show "wf (measure (\<lambda>(mat, vec, sm). unat vec))"
    by simp
next
  fix mat :: "ulong list" and vec sm :: ulong
  assume "vec \<noteq> 0"
  then have "0 < unat vec"
    by (simp add: unat_gt_0)
  then have "unat vec div 2 < unat vec"
    by simp
  then show "((tl mat, drop_bit 1 vec, if vec AND 1 \<noteq> 0 then sm XOR hd mat else sm),
              (mat, vec, sm)) \<in> measure (\<lambda>(mat, vec, sm). unat vec)"
    by (simp add: drop_bit_eq_div unat_div)
qed

declare gf2_matrix_times_loop.simps [simp del]

definition gf2_matrix_times :: "ulong list \<Rightarrow> ulong \<Rightarrow> ulong" where
  "gf2_matrix_times mat vec = gf2_matrix_times_loop mat vec 0"

definition gf2_matrix_square :: "ulong list \<Rightarrow> ulong list" where
  "gf2_matrix_square mat = map (\<lambda>n. gf2_matrix_times mat (mat ! n)) [0..<32]"

text \<open>
  The \<open>do \<dots> while\<close> of \<open>crc32_comb\<close>: one call is one pass through the body, with
  its \<open>break\<close> in the middle.
\<close>

function crc32_comb_loop :: "ulong list \<Rightarrow> ulong list \<Rightarrow> ulong \<Rightarrow> nat \<Rightarrow> ulong" where
  "crc32_comb_loop even_m odd_m crc1 len2 =
     (let even_m1 = gf2_matrix_square odd_m;
          crc1a = (if len2 AND 1 \<noteq> 0 then gf2_matrix_times even_m1 crc1 else crc1);
          len2a = drop_bit 1 len2
      in if len2a = 0 then crc1a
         else
           let odd_m1 = gf2_matrix_square even_m1;
               crc1b = (if len2a AND 1 \<noteq> 0 then gf2_matrix_times odd_m1 crc1a else crc1a);
               len2b = drop_bit 1 len2a
           in if len2b \<noteq> 0 then crc32_comb_loop even_m1 odd_m1 crc1b len2b else crc1b)"
  by pat_completeness auto
termination
proof (relation "measure (\<lambda>(even_m, odd_m, crc1, len2). len2)")
  show "wf (measure (\<lambda>(even_m, odd_m, crc1, len2). len2))"
    by simp
next
  fix even_m odd_m :: "ulong list" and crc1 :: ulong and len2 :: nat
  fix even_m1 crc1a len2a odd_m1 crc1b len2b
  assume "len2a = drop_bit 1 len2" "len2b = drop_bit 1 len2a" "len2b \<noteq> 0"
  then have "len2b < len2"
    by (simp add: drop_bit_eq_div)
  then show "((even_m1, odd_m1, crc1b, len2b), (even_m, odd_m, crc1, len2))
              \<in> measure (\<lambda>(even_m, odd_m, crc1, len2). len2)"
    by simp
qed

declare crc32_comb_loop.simps [simp del]

definition odd_init :: "ulong list" where
  "odd_init = 0xedb88320 # map (\<lambda>n. push_bit (n - 1) 1) [1..<32]"

definition crc32_comb :: "ulong \<Rightarrow> ulong \<Rightarrow> nat \<Rightarrow> ulong" where
  "crc32_comb crc1 crc2 len2 =
     (if len2 = 0 then crc1
      else
        let odd_m = odd_init;
            even_m = gf2_matrix_square odd_m;
            odd_m = gf2_matrix_square even_m
        in crc32_comb_loop even_m odd_m crc1 len2 XOR crc2)"

definition BASE :: ulong where
  "BASE = 65521"

definition LOW16 :: ulong where
  "LOW16 = 0xffff"

definition adler32_comb :: "ulong \<Rightarrow> ulong \<Rightarrow> nat \<Rightarrow> ulong" where
  "adler32_comb adler1 adler2 len2 =
     (let rem = (of_nat (len2 mod 65521) :: ulong);
          sum1 = adler1 AND LOW16;
          sum2 = (rem * sum1) mod BASE;
          sum1 = sum1 + ((adler2 AND LOW16) + BASE - 1);
          sum2 = sum2 + ((drop_bit 16 adler1 AND LOW16) + (drop_bit 16 adler2 AND LOW16)
                          + BASE - rem);
          sum1 = (if sum1 > BASE then sum1 - BASE else sum1);
          sum1 = (if sum1 > BASE then sum1 - BASE else sum1);
          sum2 = (if sum2 > push_bit 1 BASE then sum2 - push_bit 1 BASE else sum2);
          sum2 = (if sum2 > BASE then sum2 - BASE else sum2)
      in sum1 OR push_bit 16 sum2)"

definition COMB :: "config \<Rightarrow> ulong \<Rightarrow> ulong \<Rightarrow> nat \<Rightarrow> ulong" where
  "COMB g a b c = (if form g = 1 then adler32_comb a b c else crc32_comb a b c)"

subsection \<open>Matrices over GF(2) as linear maps\<close>

text \<open>
  A matrix is the list of its 32 columns; \<open>gf2_apply\<close> is the product with a vector,
  the exclusive or of the columns selected by the bits of the vector.
\<close>

primrec gf2_apply :: "ulong list \<Rightarrow> ulong \<Rightarrow> ulong" where
  "gf2_apply [] v = 0"
| "gf2_apply (m # ms) v = (if bit v 0 then m else 0) XOR gf2_apply ms (drop_bit 1 v)"

definition gf2_linear :: "(ulong \<Rightarrow> ulong) \<Rightarrow> bool" where
  "gf2_linear f \<longleftrightarrow> (\<forall>x y. f (x XOR y) = f x XOR f y)"

definition gf2_columns :: "(ulong \<Rightarrow> ulong) \<Rightarrow> ulong list" where
  "gf2_columns f = map (\<lambda>n. f (push_bit n 1)) [0..<32]"

section \<open>The deflate engine\<close>

text \<open>
  zlib's deflate is an external library. A \<open>z_stream\<close> is modelled by the calls made on it
  since \<open>deflateReset\<close>, the most recent first: \<open>SetDictionary d\<close> is
  \<open>deflateSetDictionary\<close> with the bytes \<open>d\<close>, and \<open>Deflate inp avail fl\<close> is a call
  \<open>deflate(strm, fl)\<close> made with the bytes \<open>inp\<close> newly supplied at \<open>next_in\<close> and
  \<open>avail\<close> bytes of room at \<open>next_out\<close>. What the engine writes is a parameter: a
  function of type \<open>zlib\<close> gives, for an encoder of a given level, the bytes the most
  recent call of a history writes. An engine never writes more than \<open>avail_out\<close> bytes,
  and with the room pigz gives it in the parallel path it consumes all the input of a call.
\<close>

datatype flush = Z_NO_FLUSH | Z_SYNC_FLUSH | Z_FULL_FLUSH | Z_FINISH

datatype zcall = SetDictionary "byte list" | Deflate "byte list" nat flush

type_synonym z_stream = "zcall list"

type_synonym zlib = "int \<Rightarrow> zcall list \<Rightarrow> byte list"

definition deflate_out :: "zlib \<Rightarrow> int \<Rightarrow> z_stream \<Rightarrow> byte list" where
  "deflate_out zl lvl h =
     (case h of
        Deflate inp avail fl # h' \<Rightarrow> take avail (zl lvl h)
      | _ \<Rightarrow> [])"

text \<open>All the bytes written since the reset: \<open>strm.next_out - out\<close> bytes at \<open>out\<close>.\<close>

primrec z_written :: "zlib \<Rightarrow> int \<Rightarrow> z_stream \<Rightarrow> byte list" where
  "z_written zl lvl [] = []"
| "z_written zl lvl (c # h) = z_written zl lvl h @ deflate_out zl lvl (c # h)"

definition DICT :: nat where
  "DICT = 32768"

text \<open>\<open>MAX_chunk\<close> is the source's \<open>MAX\<close>, \<open>(((unsigned)-1) >> 1) + 1\<close> and \<open>UINT_MAX\<close> is \<open>(unsigned)-1\<close>, for a 32-bit \<open>unsigned\<close>.\<close>

definition MAX_chunk :: nat where
  "MAX_chunk = 2 ^ 31"

definition UINT_MAX :: nat where
  "UINT_MAX = 2 ^ 32 - 1"

section \<open>Work units\<close>

datatype flag = IDLE | COMP | WRITE

text \<open>
  The state of the thread behind the handle \<open>comp\<close>: none to join, running, or finished
  and waiting to be joined.
\<close>

datatype thread = NoThread | Running | Finished

text \<open>
  \<open>job_buf\<close> is \<open>None\<close> for a NULL pointer, else the contents of the \<open>size\<close> bytes
  allocated. The output buffer \<open>out\<close> holds what the deflate calls of \<open>job_strm\<close> wrote.
\<close>

record work =
  job_len :: nat
  job_check :: ulong
  job_buf :: "byte list option"
  job_strm :: z_stream
  job_busy :: flag
  job_comp :: thread

definition NEXT :: "config \<Rightarrow> nat \<Rightarrow> nat" where
  "NEXT g n = (if n = procs g - 1 then 0 else n + 1)"

definition PREV :: "config \<Rightarrow> nat \<Rightarrow> nat" where
  "PREV g n = (if n = 0 then procs g - 1 else n - 1)"

text \<open>What is outside the program: the clock, the deflate engine, and what \<open>malloc\<close> leaves in
  the buffer it returns for a work unit.\<close>

record extern =
  ext_clock :: clock
  ext_zlib :: zlib
  ext_malloc :: "nat \<Rightarrow> byte list"

definition job_init :: "config \<Rightarrow> extern \<Rightarrow> nat \<Rightarrow> work \<Rightarrow> work" where
  "job_init g ext n job = job\<lparr>job_buf := Some (ext_malloc ext n), job_strm := []\<rparr>"

section \<open>Parallel compression\<close>

text \<open>The \<open>while (len > MAX)\<close> loop of \<open>compress_thread\<close>, on the bytes from \<open>next_in\<close> on.\<close>

function compress_loop ::
  "config \<Rightarrow> byte list \<Rightarrow> nat \<Rightarrow> ulong \<Rightarrow> z_stream \<Rightarrow> byte list \<times> nat \<times> ulong \<times> z_stream" where
  "compress_loop g next_in len chk strm =
     (if len > MAX_chunk
      then compress_loop g (drop MAX_chunk next_in) (len - MAX_chunk) (CHECK g chk (take MAX_chunk next_in))
             (Deflate (take MAX_chunk next_in) UINT_MAX Z_NO_FLUSH # strm)
      else (next_in, len, chk, strm))"
  by pat_completeness auto
termination
  by (relation "measure (\<lambda>(g, next_in, len, chk, strm). len)") (simp_all add: MAX_chunk_def)

declare compress_loop.simps [simp del]

text \<open>
  \<open>compress_thread\<close> on work unit \<open>n\<close> of the array \<open>js\<close>: the work unit as the thread
  leaves it.
\<close>

definition compress_thread :: "config \<Rightarrow> (nat \<Rightarrow> work) \<Rightarrow> nat \<Rightarrow> work" where
  "compress_thread g js n =
     (let job = js n;
          strm0 = [];
          len = job_len job;
          chk = CHECK_init g;
          prev = js (PREV g n);
          strm1 = (if dict g \<and> job_buf prev \<noteq> None \<and> len \<noteq> 0
                   then SetDictionary (take DICT (drop (bsize g - DICT) (the (job_buf prev)))) # strm0
                   else strm0);
          (next_in, len1, chk1, strm2) = compress_loop g (take len (the (job_buf job))) len chk strm1;
          chk2 = CHECK g chk1 (take len1 next_in);
          strm3 = Deflate (take len1 next_in) UINT_MAX
                    (if job_len job < bsize g then Z_FINISH else Z_SYNC_FLUSH) # strm2
      in job\<lparr>job_check := chk2, job_strm := strm3\<rparr>)"

text \<open>
  The threads of \<open>read_thread\<close>, \<open>write_thread\<close> and \<open>compress_thread\<close> as a transition
  system. A step is one statement on shared data, a flag operation, a thread creation or a
  join; a step that must wait (\<open>flag_wait\<close>, \<open>flag_wait_not\<close>, \<open>pthread_join\<close>) is not
  enabled until its condition holds. \<open>readn\<close> and \<open>writen\<close> succeed (a failing one ends
  the process). A compressor takes one step: the buffers it reads do not change while it
  can run.
\<close>

datatype rpc = R_init | R_wait1 | R_wait2 | R_read | R_wait3 | R_create | R_set | R_join | R_done

datatype wpc = W_header | W_wait | W_join | W_setw | W_write | W_release | W_trailer | W_done

record state =
  jobs :: "nat \<Rightarrow> work"
  ind :: "byte list"
  outd :: "byte list"
  r_pc :: rpc
  r_n :: nat
  r_got :: nat
  w_pc :: wpc
  w_n :: nat
  w_len :: nat
  w_head :: nat
  w_ulen :: ulong
  w_clen :: ulong
  w_check :: ulong

definition reader_step :: "config \<Rightarrow> extern \<Rightarrow> state \<Rightarrow> state option" where
  "reader_step g ext s =
     (let n = r_n s; job = jobs s n in
      case r_pc s of
        R_init \<Rightarrow>
          Some (s\<lparr>jobs := (if job_buf job = None then (jobs s)(n := job_init g ext n job) else jobs s),
                  r_pc := R_wait1\<rparr>)
      | R_wait1 \<Rightarrow>
          if job_busy job \<noteq> COMP then Some (s\<lparr>r_pc := R_wait2\<rparr>) else None
      | R_wait2 \<Rightarrow>
          if job_busy (jobs s (NEXT g n)) \<noteq> COMP then Some (s\<lparr>r_pc := R_read\<rparr>) else None
      | R_read \<Rightarrow>
          (let data = take (bsize g) (ind s) in
           Some (s\<lparr>jobs := (jobs s)
                     (n := job\<lparr>job_buf := Some (data @ drop (length data) (the (job_buf job)))\<rparr>),
                   ind := drop (bsize g) (ind s),
                   r_got := length data,
                   r_pc := R_wait3\<rparr>))
      | R_wait3 \<Rightarrow>
          if job_busy job = IDLE then Some (s\<lparr>r_pc := R_create\<rparr>) else None
      | R_create \<Rightarrow>
          Some (s\<lparr>jobs := (jobs s)(n := job\<lparr>job_len := r_got s, job_comp := Running\<rparr>),
                  r_pc := R_set\<rparr>)
      | R_set \<Rightarrow>
          Some (s\<lparr>jobs := (jobs s)(n := job\<lparr>job_busy := COMP\<rparr>),
                  r_n := NEXT g n,
                  r_pc := (if r_got s = bsize g then R_init else R_join)\<rparr>)
      | R_join \<Rightarrow>
          if w_pc s = W_done then Some (s\<lparr>r_pc := R_done\<rparr>) else None
      | R_done \<Rightarrow> None)"

definition compress_step :: "config \<Rightarrow> nat \<Rightarrow> state \<Rightarrow> state option" where
  "compress_step g n s =
     (if n < procs g \<and> job_comp (jobs s n) = Running
      then Some (s\<lparr>jobs := (jobs s)(n := (compress_thread g (jobs s) n)\<lparr>job_comp := Finished\<rparr>)\<rparr>)
      else None)"

definition writer_step :: "config \<Rightarrow> extern \<Rightarrow> state \<Rightarrow> state option" where
  "writer_step g ext s =
     (let n = w_n s; job = jobs s n in
      case w_pc s of
        W_header \<Rightarrow>
          Some (s\<lparr>outd := outd s @ fst (put_header (ext_clock ext) g),
                  w_head := snd (put_header (ext_clock ext) g),
                  w_ulen := 0, w_clen := 0, w_check := CHECK_init g, w_n := 0,
                  w_pc := W_wait\<rparr>)
      | W_wait \<Rightarrow>
          if job_busy job = COMP then Some (s\<lparr>w_pc := W_join\<rparr>) else None
      | W_join \<Rightarrow>
          if job_comp job = Finished
          then Some (s\<lparr>jobs := (jobs s)(n := job\<lparr>job_comp := NoThread\<rparr>), w_pc := W_setw\<rparr>)
          else None
      | W_setw \<Rightarrow>
          Some (s\<lparr>jobs := (jobs s)(n := job\<lparr>job_busy := WRITE\<rparr>), w_pc := W_write\<rparr>)
      | W_write \<Rightarrow>
          (let out = z_written (ext_zlib ext) (level g) (job_strm job) in
           Some (s\<lparr>outd := outd s @ out,
                   w_len := job_len job,
                   w_ulen := w_ulen s + of_nat (job_len job),
                   w_clen := w_clen s + of_nat (length out),
                   w_check := COMB g (w_check s) (job_check job) (job_len job),
                   w_pc := W_release\<rparr>))
      | W_release \<Rightarrow>
          Some (s\<lparr>jobs := (jobs s)(n := job\<lparr>job_busy := IDLE\<rparr>),
                  w_n := NEXT g n,
                  w_pc := (if w_len s = bsize g then W_wait else W_trailer)\<rparr>)
      | W_trailer \<Rightarrow>
          Some (s\<lparr>outd := outd s @ put_trailer (ext_clock ext) g (w_ulen s) (w_clen s) (w_check s) (w_head s),
                  w_pc := W_done\<rparr>)
      | W_done \<Rightarrow> None)"

text \<open>The threads, and the steps a schedule lets them take.\<close>

datatype tid = Reader | Writer | Compressor nat

definition thread_step :: "config \<Rightarrow> extern \<Rightarrow> tid \<Rightarrow> state \<Rightarrow> state option" where
  "thread_step g ext t s =
     (case t of
        Reader \<Rightarrow> reader_step g ext s
      | Writer \<Rightarrow> writer_step g ext s
      | Compressor n \<Rightarrow> compress_step g n s)"

definition step :: "config \<Rightarrow> extern \<Rightarrow> state \<Rightarrow> state \<Rightarrow> bool" where
  "step g ext s s' \<longleftrightarrow> (\<exists>t. thread_step g ext t s = Some s')"

inductive reach :: "config \<Rightarrow> extern \<Rightarrow> state \<Rightarrow> state \<Rightarrow> bool"
  for g :: config and ext :: extern and s0 :: state where
  reach_init: "reach g ext s0 s0"
| reach_step: "reach g ext s0 s \<Longrightarrow> step g ext s s' \<Longrightarrow> reach g ext s0 s'"

primrec run :: "config \<Rightarrow> extern \<Rightarrow> tid list \<Rightarrow> state \<Rightarrow> state option" where
  "run g ext [] s = Some s"
| "run g ext (t # ts) s =
     (case thread_step g ext t s of None \<Rightarrow> None | Some s' \<Rightarrow> run g ext ts s')"

text \<open>
  \<open>read_thread\<close> starts on the pool \<open>js\<close> that \<open>jobs_new\<close> allocated or left in place,
  with the writer created and nothing read or written.
\<close>

definition jobs_new :: "nat \<Rightarrow> work" where
  "jobs_new n = \<lparr>job_len = 0, job_check = 0, job_buf = None, job_strm = [],
                 job_busy = IDLE, job_comp = NoThread\<rparr>"

definition read_thread_init :: "(nat \<Rightarrow> work) \<Rightarrow> byte list \<Rightarrow> state" where
  "read_thread_init js inp =
     \<lparr>jobs = js, ind = inp, outd = [],
      r_pc = R_init, r_n = 0, r_got = 0,
      w_pc = W_header, w_n = 0, w_len = 0, w_head = 0, w_ulen = 0, w_clen = 0, w_check = 0\<rparr>"

text \<open>A pool between two files: every flag idle and no compressor left to join.\<close>

definition pool_idle :: "config \<Rightarrow> (nat \<Rightarrow> work) \<Rightarrow> bool" where
  "pool_idle g js \<longleftrightarrow> (\<forall>n < procs g. job_busy (js n) = IDLE \<and> job_comp (js n) = NoThread)"

subsection \<open>Blocks of the input and what a compressor makes of one\<close>

text \<open>
  For stating what the pipeline does: block \<open>i\<close> of the input for block size \<open>S\<close>, the
  number of blocks the reader schedules, and the check value and call history that
  \<open>compress_thread\<close> leaves for a block \<open>data\<close> when the previous work unit's buffer is
  \<open>prev\<close>.
\<close>

definition block :: "nat \<Rightarrow> byte list \<Rightarrow> nat \<Rightarrow> byte list" where
  "block S inp i = take S (drop (i * S) inp)"

definition nblocks :: "nat \<Rightarrow> byte list \<Rightarrow> nat" where
  "nblocks S inp = length inp div S + 1"

definition compress_result :: "config \<Rightarrow> byte list option \<Rightarrow> byte list \<Rightarrow> ulong \<times> z_stream" where
  "compress_result g prev data =
     (let strm1 = (if dict g \<and> prev \<noteq> None \<and> length data \<noteq> 0
                   then [SetDictionary (take DICT (drop (bsize g - DICT) (the prev)))]
                   else []);
          (next_in, len1, chk1, strm2) = compress_loop g data (length data) (CHECK_init g) strm1
      in (CHECK g chk1 (take len1 next_in),
          Deflate (take len1 next_in) UINT_MAX
            (if length data < bsize g then Z_FINISH else Z_SYNC_FLUSH) # strm2))"

definition block_out :: "config \<Rightarrow> extern \<Rightarrow> byte list \<Rightarrow> (nat \<Rightarrow> byte list option) \<Rightarrow> nat \<Rightarrow> byte list" where
  "block_out g ext inp ds i =
     z_written (ext_zlib ext) (level g) (snd (compress_result g (ds i) (block (bsize g) inp i)))"

definition check_fold :: "config \<Rightarrow> byte list \<Rightarrow> nat \<Rightarrow> ulong" where
  "check_fold g inp k =
     foldl (\<lambda>c i. COMB g c (CHECK g (CHECK_init g) (block (bsize g) inp i))
                      (length (block (bsize g) inp i)))
       (CHECK_init g) [0..<k]"

subsection \<open>The invariant of the pipeline\<close>

text \<open>
  \<open>rk\<close> counts the blocks the reader has handed over (flag set to \<open>COMP\<close>), \<open>wk\<close> the
  blocks the writer has released, and \<open>ds i\<close> is the previous buffer that the compressor of
  block \<open>i\<close> saw.
\<close>

definition inv_reader :: "config \<Rightarrow> byte list \<Rightarrow> nat \<Rightarrow> state \<Rightarrow> bool" where
  "inv_reader g inp rk s \<longleftrightarrow>
     (r_pc s \<in> {R_join, R_done} \<longrightarrow> rk = length inp div bsize g + 1) \<and>
     (r_pc s \<notin> {R_join, R_done} \<longrightarrow> rk \<le> length inp div bsize g \<and> r_n s = rk mod procs g) \<and>
     (r_pc s \<in> {R_init, R_wait1, R_wait2, R_read} \<longrightarrow> ind s = drop (rk * bsize g) inp) \<and>
     (r_pc s \<in> {R_wait3, R_create, R_set} \<longrightarrow>
        ind s = drop (Suc rk * bsize g) inp \<and>
        r_got s = length (block (bsize g) inp rk) \<and>
        (\<exists>b. job_buf (jobs s (r_n s)) = Some b \<and> take (r_got s) b = block (bsize g) inp rk)) \<and>
     (r_pc s \<in> {R_wait1, R_wait2, R_read} \<longrightarrow> job_buf (jobs s (r_n s)) \<noteq> None)"

definition inv_flags :: "config \<Rightarrow> nat \<Rightarrow> nat \<Rightarrow> state \<Rightarrow> bool" where
  "inv_flags g rk wk s \<longleftrightarrow>
     wk \<le> rk \<and> rk \<le> wk + procs g \<and>
     (\<forall>i. wk \<le> i \<and> i < rk \<longrightarrow>
        job_busy (jobs s (i mod procs g)) =
          (if i = wk \<and> w_pc s \<in> {W_write, W_release} then WRITE else COMP)) \<and>
     (\<forall>j < procs g. (\<forall>i. wk \<le> i \<and> i < rk \<longrightarrow> i mod procs g \<noteq> j) \<longrightarrow>
        job_busy (jobs s j) = IDLE) \<and>
     (r_pc s \<in> {R_wait2, R_read, R_wait3} \<longrightarrow> job_busy (jobs s (r_n s)) \<noteq> COMP) \<and>
     (r_pc s \<in> {R_create, R_set} \<longrightarrow> job_busy (jobs s (r_n s)) = IDLE \<and> rk < wk + procs g) \<and>
     (w_pc s \<in> {W_join, W_setw, W_write, W_release} \<longrightarrow> wk < rk)"

definition created :: "nat \<Rightarrow> state \<Rightarrow> nat" where
  "created rk s = (if r_pc s = R_set then Suc rk else rk)"

definition joined :: "nat \<Rightarrow> state \<Rightarrow> nat" where
  "joined wk s = (if w_pc s \<in> {W_setw, W_write, W_release} then Suc wk else wk)"

definition job_done :: "config \<Rightarrow> byte list option \<Rightarrow> byte list \<Rightarrow> work \<Rightarrow> bool" where
  "job_done g prev data job \<longleftrightarrow>
     job_len job = length data \<and> job_buf job \<noteq> None \<and>
     (job_check job, job_strm job) = compress_result g prev data"

definition job_todo :: "byte list \<Rightarrow> work \<Rightarrow> bool" where
  "job_todo data job \<longleftrightarrow>
     job_len job = length data \<and> (\<exists>b. job_buf job = Some b \<and> take (length data) b = data)"

definition inv_threads ::
  "config \<Rightarrow> byte list \<Rightarrow> nat \<Rightarrow> nat \<Rightarrow> (nat \<Rightarrow> byte list option) \<Rightarrow> state \<Rightarrow> bool" where
  "inv_threads g inp rk wk ds s \<longleftrightarrow>
     (\<forall>i. joined wk s \<le> i \<and> i < created rk s \<longrightarrow>
        (job_comp (jobs s (i mod procs g)) = Running \<and>
           job_todo (block (bsize g) inp i) (jobs s (i mod procs g)))
        \<or> (job_comp (jobs s (i mod procs g)) = Finished \<and>
           job_done g (ds i) (block (bsize g) inp i) (jobs s (i mod procs g)))) \<and>
     (w_pc s \<in> {W_setw, W_write} \<longrightarrow>
        job_done g (ds wk) (block (bsize g) inp wk) (jobs s (wk mod procs g))) \<and>
     (\<forall>j < procs g. (\<forall>i. joined wk s \<le> i \<and> i < created rk s \<longrightarrow> i mod procs g \<noteq> j) \<longrightarrow>
        job_comp (jobs s j) = NoThread)"

definition written :: "nat \<Rightarrow> state \<Rightarrow> nat" where
  "written wk s = (if w_pc s = W_release then Suc wk else wk)"

definition inv_writer ::
  "config \<Rightarrow> extern \<Rightarrow> byte list \<Rightarrow> nat \<Rightarrow> (nat \<Rightarrow> byte list option) \<Rightarrow> state \<Rightarrow> bool" where
  "inv_writer g ext inp wk ds s \<longleftrightarrow>
     (w_pc s = W_header \<longrightarrow> wk = 0 \<and> outd s = []) \<and>
     (w_pc s \<in> {W_wait, W_join, W_setw, W_write, W_release} \<longrightarrow>
        wk \<le> length inp div bsize g \<and> w_n s = wk mod procs g) \<and>
     (w_pc s \<in> {W_trailer, W_done} \<longrightarrow> wk = length inp div bsize g + 1) \<and>
     (w_pc s = W_release \<longrightarrow> w_len s = length (block (bsize g) inp wk)) \<and>
     (w_pc s \<noteq> W_header \<longrightarrow>
        w_head s = snd (put_header (ext_clock ext) g) \<and>
        w_ulen s = of_nat (sum_list (map (\<lambda>i. length (block (bsize g) inp i)) [0..<written wk s])) \<and>
        w_clen s = of_nat (sum_list (map (\<lambda>i. length (block_out g ext inp ds i)) [0..<written wk s])) \<and>
        w_check s = check_fold g inp (written wk s) \<and>
        outd s = fst (put_header (ext_clock ext) g)
                   @ concat (map (block_out g ext inp ds) [0..<written wk s])
                   @ (if w_pc s = W_done
                      then put_trailer (ext_clock ext) g (w_ulen s) (w_clen s) (w_check s) (w_head s)
                      else []))"

definition pipeline_inv ::
  "config \<Rightarrow> extern \<Rightarrow> byte list \<Rightarrow> nat \<Rightarrow> nat \<Rightarrow> (nat \<Rightarrow> byte list option) \<Rightarrow> state \<Rightarrow> bool" where
  "pipeline_inv g ext inp rk wk ds s \<longleftrightarrow>
     inv_reader g inp rk s \<and> inv_flags g rk wk s \<and> inv_threads g inp rk wk ds s \<and>
     inv_writer g ext inp wk ds s"

text \<open>The calls before the last one: a preset dictionary at most, then no-flush calls.\<close>

fun no_flush_calls :: "z_stream \<Rightarrow> bool" where
  "no_flush_calls [] = True"
| "no_flush_calls [SetDictionary d] = True"
| "no_flush_calls (Deflate inp avail fl # h) = (fl = Z_NO_FLUSH \<and> no_flush_calls h)"
| "no_flush_calls (SetDictionary d # c # h) = False"


subsection \<open>A small instance\<close>

text \<open>
  For running the pipeline on a concrete input: an engine that copies the input of each
  call to its output, two work units, blocks of two bytes, and the schedule in which the
  writer writes the header, then each block in turn is read, compressed and written, and
  last the trailer is written and the reader joins the writer.
\<close>

definition stored_zlib :: zlib where
  "stored_zlib lvl h = (case h of Deflate inp avail fl # h' \<Rightarrow> inp | _ \<Rightarrow> [])"

definition small_config :: config where
  "small_config = defaults\<lparr>procs := 2, bsize := 2\<rparr>"

definition small_extern :: extern where
  "small_extern = \<lparr>ext_clock = epoch_clock, ext_zlib = stored_zlib, ext_malloc = (\<lambda>n. [0, 0])\<rparr>"

definition block_schedule :: "nat \<Rightarrow> tid list" where
  "block_schedule n = [Reader, Reader, Reader, Reader, Reader, Reader, Reader, Compressor n,
     Writer, Writer, Writer, Writer, Writer]"

definition small_schedule :: "tid list" where
  "small_schedule = [Writer] @ block_schedule 0 @ block_schedule 1 @ [Writer, Reader]"

subsection \<open>Counting steps\<close>

text \<open>
  The steps a thread has taken when it has handled \<open>k\<close> blocks and stands at a given
  place, and the compressors that have finished and wait to be joined: together with the
  joins made, a number that every step of the pipeline increases.
\<close>

definition reader_done :: "nat \<Rightarrow> rpc \<Rightarrow> nat" where
  "reader_done rk pc =
     7 * rk + (case pc of R_init \<Rightarrow> 0 | R_wait1 \<Rightarrow> 1 | R_wait2 \<Rightarrow> 2 | R_read \<Rightarrow> 3
               | R_wait3 \<Rightarrow> 4 | R_create \<Rightarrow> 5 | R_set \<Rightarrow> 6 | R_join \<Rightarrow> 0 | R_done \<Rightarrow> 1)"

definition writer_done :: "nat \<Rightarrow> wpc \<Rightarrow> nat" where
  "writer_done wk pc =
     5 * wk + (case pc of W_header \<Rightarrow> 0 | W_wait \<Rightarrow> 1 | W_join \<Rightarrow> 2 | W_setw \<Rightarrow> 3
               | W_write \<Rightarrow> 4 | W_release \<Rightarrow> 5 | W_trailer \<Rightarrow> 1 | W_done \<Rightarrow> 2)"

definition finished_count :: "config \<Rightarrow> state \<Rightarrow> nat" where
  "finished_count g s = (\<Sum>j < procs g. if job_comp (jobs s j) = Finished then 1 else 0)"

definition progress :: "config \<Rightarrow> nat \<Rightarrow> nat \<Rightarrow> state \<Rightarrow> nat" where
  "progress g rk wk s =
     reader_done rk (r_pc s) + writer_done wk (w_pc s) + joined wk s + finished_count g s"

section \<open>Serial compression\<close>

text \<open>
  The inner \<open>do \<dots> while (strm->avail_out == 0)\<close> of \<open>single_gzip\<close>: deflate is called
  with \<open>size\<close> bytes of room, what it wrote is written out and counted, and the call is
  repeated while it filled the room. The first call has the input \<open>inp\<close> just supplied, the
  repeated ones have nothing new. The state is the stream, the output written and
  \<open>clen\<close>. An engine that fills the room for ever keeps the loop going: the result is
  \<open>None\<close>.
\<close>

partial_function (option) deflate_drain ::
  "zlib \<Rightarrow> config \<Rightarrow> flush \<Rightarrow> byte list \<Rightarrow> z_stream \<times> byte list \<times> ulong
     \<Rightarrow> (z_stream \<times> byte list \<times> ulong) option" where
  "deflate_drain zl g fl inp st =
     (let strm = Deflate inp (bsize g) fl # fst st;
          w = deflate_out zl (level g) strm;
          st' = (strm, fst (snd st) @ w, snd (snd st) + of_nat (length w))
      in if length w = bsize g then deflate_drain zl g fl [] st' else Some st')"

text \<open>The \<open>while (got > MAX)\<close> loop of \<open>single_gzip\<close>.\<close>

function single_chunks ::
  "zlib \<Rightarrow> config \<Rightarrow> byte list \<Rightarrow> nat \<Rightarrow> ulong \<Rightarrow> z_stream \<times> byte list \<times> ulong
     \<Rightarrow> (byte list \<times> nat \<times> ulong \<times> z_stream \<times> byte list \<times> ulong) option" where
  "single_chunks zl g next_in got chk st =
     (if got > MAX_chunk
      then (case deflate_drain zl g Z_NO_FLUSH (take MAX_chunk next_in) st of
              None \<Rightarrow> None
            | Some st' \<Rightarrow>
                single_chunks zl g (drop MAX_chunk next_in) (got - MAX_chunk)
                  (CHECK g chk (take MAX_chunk next_in)) st')
      else Some (next_in, got, chk, st))"
  by pat_completeness auto
termination
  by (relation "measure (\<lambda>(zl, g, next_in, got, chk, st). got)") (simp_all add: MAX_chunk_def)

declare single_chunks.simps [simp del]

text \<open>
  The outer \<open>do \<dots> while (got == size)\<close>: \<open>got\<close> is the variable the chunk loop has
  reduced, in the choice of the flush and in the loop test. With \<open>size = 0\<close> the loop of
  the source never ends.
\<close>

function single_loop ::
  "zlib \<Rightarrow> config \<Rightarrow> byte list \<Rightarrow> ulong \<Rightarrow> ulong \<Rightarrow> z_stream \<times> byte list \<times> ulong
     \<Rightarrow> (ulong \<times> ulong \<times> z_stream \<times> byte list \<times> ulong) option" where
  "single_loop zl g input ulen chk st =
     (if bsize g = 0 then None
      else
        let buf = take (bsize g) input;
            ulen1 = ulen + of_nat (length buf)
        in case single_chunks zl g buf (length buf) chk st of
             None \<Rightarrow> None
           | Some (next_in, got, chk1, st1) \<Rightarrow>
               let chk2 = (if got \<noteq> 0 then CHECK g chk1 (take got next_in) else chk1)
               in case deflate_drain zl g
                         (if got < bsize g then Z_FINISH
                          else if dict g then Z_NO_FLUSH else Z_FULL_FLUSH)
                         (take got next_in) st1 of
                    None \<Rightarrow> None
                  | Some st2 \<Rightarrow>
                      if got = bsize g
                      then single_loop zl g (drop (bsize g) input) ulen1 chk2 st2
                      else Some (ulen1, chk2, st2))"
  by pat_completeness auto
termination
proof (relation "measure (\<lambda>(zl, g, input, ulen, chk, st). length input)", goal_cases)
  case 1
  show ?case by simp
next
  case (2 zl g input ulen chk st buf ulen1 x2 next_in y got ya chk1 st1 chk2 st2)
  have le: "got' \<le> n"
    if "single_chunks zl g xs n c0 s0 = Some (xs', got', c', s')"
    for xs n c0 s0 xs' got' c' s'
    using that
  proof (induction zl g xs n c0 s0 rule: single_chunks.induct)
    case (1 zl g next_in got chk st)
    show ?case
    proof (cases "got > MAX_chunk")
      case True
      then obtain st' where "deflate_drain zl g Z_NO_FLUSH (take MAX_chunk next_in) st = Some st'"
        and "single_chunks zl g (drop MAX_chunk next_in) (got - MAX_chunk)
               (CHECK g chk (take MAX_chunk next_in)) st' = Some (xs', got', c', s')"
        using "1.prems" by (subst (asm) single_chunks.simps) (auto split: option.splits)
      then have "got' \<le> got - MAX_chunk"
        using "1.IH" [OF True] by simp
      then show ?thesis by simp
    next
      case False
      then show ?thesis
        using "1.prems" by (subst (asm) single_chunks.simps) simp
    qed
  qed
  have "single_chunks zl g buf (length buf) chk st = Some (next_in, got, chk1, st1)"
    using 2 by auto
  then have "got \<le> length buf"
    by (rule le)
  then have "0 < length input"
    using 2 by auto
  then show ?case
    using 2 by simp
qed

declare single_loop.simps [simp del]

text \<open>
  \<open>single_gzip\<close>: the bytes written, and the stream with the calls made on it, or
  \<open>None\<close> when a loop does not end.
\<close>

definition single_gzip :: "extern \<Rightarrow> config \<Rightarrow> byte list \<Rightarrow> (byte list \<times> z_stream) option" where
  "single_gzip ext g input =
     (let head = put_header (ext_clock ext) g
      in case single_loop (ext_zlib ext) g input 0 (CHECK_init g) ([], fst head, 0) of
           None \<Rightarrow> None
         | Some (ulen, chk, strm, out, clen) \<Rightarrow>
             Some (out @ put_trailer (ext_clock ext) g ulen clen chk (snd head), strm))"

text \<open>
  For stating which calls a read leads to when the block size is at most \<open>MAX\<close>: the
  call that supplies the block and \<open>r\<close> repeated calls, most recent first.
\<close>

definition single_flush :: "config \<Rightarrow> bool \<Rightarrow> flush" where
  "single_flush g final = (if final then Z_FINISH else if dict g then Z_NO_FLUSH else Z_FULL_FLUSH)"

definition read_calls :: "config \<Rightarrow> byte list \<Rightarrow> flush \<Rightarrow> nat \<Rightarrow> zcall list" where
  "read_calls g data fl r = replicate r (Deflate [] (bsize g) fl) @ [Deflate data (bsize g) fl]"

section \<open>Container framing: proofs\<close>

lemma mask_numerals: "(0xff :: int) = mask 8" "(0xffff :: int) = mask 16"
  by (simp_all add: mask_eq_exp_minus_1)

lemma PUT4L_word: "PUT4L m = le32 (word_of_int m)"
  unfolding PUT4L_def PUT2L_def le32_def mask_numerals
  apply simp
  apply (intro conjI bit_word_eqI)
  apply (auto simp add: bit_simps)
  done

lemma PUT4L_uint: "PUT4L (uint w) = le32 w"
  by (simp add: PUT4L_word)

lemma zlib_header_bytes:
  "fst (put_header clk (g\<lparr>form := 1\<rparr>)) =
     [0x78, if level g = 9 then 0xDA else if level g = 1 then 0x01
            else if level g \<ge> 6 \<or> level g = Z_DEFAULT_COMPRESSION then 0x5E else 0x9C]"
  by (simp add: put_header_def Z_DEFAULT_COMPRESSION_def Let_def)

text \<open>
  C6 (as the code has it). The zlib header is two bytes, the first \<open>0x78\<close>; the top two
  bits of the second are 3 for level 9, 0 for level 1, 1 for every other level from 6 up
  (6, 7 and 8) and for the default level, and 2 for the remaining levels (0 and 2 to 5); the
  big-endian value of the two bytes is a multiple of 31, and at level 9 the bytes are 78 DA.
\<close>

theorem zlib_header_levels:
  "\<exists>b. fst (put_header clk (g\<lparr>form := 1\<rparr>)) = [0x78, b]
     \<and> zlib_flevel b =
         (if level g = 9 then 3 else if level g = 1 then 0
          else if level g \<ge> 6 \<or> level g = Z_DEFAULT_COMPRESSION then 1 else 2)
     \<and> be16 [0x78, b] mod 31 = 0
     \<and> fst (put_header clk (g\<lparr>level := 9, form := 1\<rparr>)) = [0x78, 0xDA]"
  by (simp add: zlib_header_bytes zlib_flevel_def be16_def)

text \<open>
  C6 as stated fails at level 7: the claim gives level bits 2 to every level other than
  9, 1, 6 and the default, and the header has level bits 1 there.
\<close>

theorem zlib_header_level7_counterexample:
  "zlib_flevel (fst (put_header epoch_clock (defaults\<lparr>level := 7, form := 1\<rparr>)) ! 1) \<noteq> 2"
  using zlib_header_bytes [of epoch_clock "defaults\<lparr>level := 7\<rparr>"]
  by (simp add: zlib_flevel_def Z_DEFAULT_COMPRESSION_def)

text \<open>
  C7. The gzip header is 1F 8B 08 FLG, the modification time in four little-endian bytes,
  XFL and 03, with FLG 8 and the name and a NUL following when a name is stored and FLG 0
  otherwise, and XFL 2 for level 9, 4 for level 1 and 0 for every other level. The gzip
  trailer is the check value and then the uncompressed length modulo \<open>2\<^sup>3\<^sup>2\<close>, each in
  four little-endian bytes.
\<close>

theorem gzip_framing:
  "fst (put_header clk (g\<lparr>form := 0\<rparr>)) =
     [0x1F, 0x8B, 0x08, if name g = None then 0 else 8]
       @ le32 (word_of_int (mtime g))
       @ [if level g = 9 then 2 else if level g = 1 then 4 else 0, 0x03]
       @ (case name g of None \<Rightarrow> [] | Some s \<Rightarrow> s @ [0])
   \<and> put_trailer clk (g\<lparr>form := 0\<rparr>) ulen clen check head = le32 check @ le32 ulen"
  by (simp add: put_header_def put_trailer_def PUT4L_word)

section \<open>Check combination: proofs\<close>

lemma gf2_apply_zero [simp]: "gf2_apply mat 0 = 0"
  by (induction mat) simp_all

lemma gf2_apply_xor: "gf2_apply mat (v XOR w) = gf2_apply mat v XOR gf2_apply mat w"
proof (induction mat arbitrary: v w)
  case Nil
  show ?case by simp
next
  case (Cons m ms)
  have "drop_bit 1 (v XOR w) = drop_bit 1 v XOR drop_bit 1 w"
    by (rule bit_word_eqI) (simp add: bit_simps)
  with Cons show ?case
    by (simp add: bit_simps ac_simps)
qed

lemma gf2_linear_apply: "gf2_linear (gf2_apply mat)"
  by (simp add: gf2_linear_def gf2_apply_xor)

lemma gf2_linear_zero: "gf2_linear f \<Longrightarrow> f 0 = 0"
proof -
  assume "gf2_linear f"
  then have "f (0 XOR 0) = f 0 XOR f 0"
    unfolding gf2_linear_def by blast
  then show ?thesis by simp
qed

lemma gf2_linearD: "gf2_linear f \<Longrightarrow> f (x XOR y) = f x XOR f y"
  unfolding gf2_linear_def by blast

lemma gf2_linear_comp:
  assumes "gf2_linear f" and "gf2_linear g"
  shows "gf2_linear (f \<circ> g)"
  unfolding gf2_linear_def
proof (intro allI)
  fix x y
  show "(f \<circ> g) (x XOR y) = (f \<circ> g) x XOR (f \<circ> g) y"
    by (simp add: gf2_linearD [OF assms(2)] gf2_linearD [OF assms(1)])
qed

lemma gf2_times_loop:
  "unat vec < 2 ^ length mat \<Longrightarrow> gf2_matrix_times_loop mat vec s = s XOR gf2_apply mat vec"
proof (induction mat vec s rule: gf2_matrix_times_loop.induct)
  case (1 mat vec s)
  show ?case
  proof (cases "vec = 0")
    case True
    then show ?thesis by (subst gf2_matrix_times_loop.simps) simp
  next
    case False
    with "1.prems" obtain m ms where mat: "mat = m # ms"
      by (cases mat) (auto simp: unat_eq_0)
    have lt: "unat (drop_bit 1 vec) < 2 ^ length ms"
      using "1.prems" mat by (simp add: drop_bit_eq_div unat_div)
    have IH: "gf2_matrix_times_loop ms (drop_bit 1 vec) (if vec AND 1 \<noteq> 0 then s XOR m else s)
        = (if vec AND 1 \<noteq> 0 then s XOR m else s) XOR gf2_apply ms (drop_bit 1 vec)"
      using "1.IH" [OF False] lt unfolding mat by (cases "vec AND 1 = 0") simp_all
    have b: "(vec AND 1 \<noteq> 0) = bit vec 0"
      by (simp add: and_one_eq bit_0 mod_2_eq_odd)
    show ?thesis
    proof (cases "bit vec 0")
      case True
      with b have "vec AND 1 \<noteq> 0" by simp
      with False mat IH True show ?thesis
        by (subst gf2_matrix_times_loop.simps) (simp add: xor.assoc)
    next
      case nb: False
      with b have "vec AND 1 = 0" by simp
      with False mat IH nb show ?thesis
        by (subst gf2_matrix_times_loop.simps) simp
    qed
  qed
qed

lemma gf2_times_apply: "length mat = 32 \<Longrightarrow> gf2_matrix_times mat vec = gf2_apply mat vec"
proof -
  assume "length mat = 32"
  moreover have "unat vec < 2 ^ 32"
    using unsigned_less [of vec] by simp
  ultimately show ?thesis
    by (simp add: gf2_matrix_times_def gf2_times_loop)
qed

lemma gf2_apply_unit:
  "n < length mat \<Longrightarrow> n < 32 \<Longrightarrow> gf2_apply mat (push_bit n 1) = mat ! n"
proof (induction mat arbitrary: n)
  case Nil
  then show ?case by simp
next
  case (Cons m ms)
  show ?case
  proof (cases n)
    case 0
    then show ?thesis by simp
  next
    case (Suc k)
    have "Suc k < 32"
      using Cons.prems Suc by simp
    then have "drop_bit 1 (push_bit (Suc k) (1 :: ulong)) = push_bit k 1"
      by (intro bit_word_eqI) (auto simp add: bit_simps)
    moreover have "\<not> bit (push_bit (Suc k) (1 :: ulong)) 0"
      by (simp add: bit_simps)
    ultimately show ?thesis
      using Cons.IH [of k] Cons.prems Suc by simp
  qed
qed

lemma gf2_apply_columns_from:
  assumes f: "gf2_linear f"
  shows "k \<le> 32 \<Longrightarrow>
    gf2_apply (map (\<lambda>n. f (push_bit n 1)) [k..<32]) (drop_bit k v) = f (push_bit k (drop_bit k v))"
proof (induction "32 - k" arbitrary: k)
  case 0
  then have "k = 32" by simp
  then show ?case
    by (simp add: gf2_linear_zero [OF f])
next
  case (Suc d)
  then have k: "k < 32" and d: "d = 32 - Suc k" and le: "Suc k \<le> 32"
    by simp_all
  have IH: "gf2_apply (map (\<lambda>n. f (push_bit n 1)) [Suc k..<32]) (drop_bit (Suc k) v)
            = f (push_bit (Suc k) (drop_bit (Suc k) v))"
    using Suc.hyps(1) [OF d le] .
  have split: "push_bit k (drop_bit k v)
      = (if bit v k then push_bit k 1 else 0) XOR push_bit (Suc k) (drop_bit (Suc k) v)"
  proof (rule bit_word_eqI)
    fix n
    assume n: "n < LENGTH(32)"
    consider "n < k" | "n = k" | "Suc k \<le> n"
      by linarith
    then show "bit (push_bit k (drop_bit k v)) n
        = bit ((if bit v k then push_bit k 1 else 0) XOR push_bit (Suc k) (drop_bit (Suc k) v)) n"
    proof cases
      case 1
      then show ?thesis
        by (simp add: bit_simps del: push_bit_Suc drop_bit_Suc)
    next
      case 2
      then show ?thesis
        using n by (simp add: bit_simps del: push_bit_Suc drop_bit_Suc)
    next
      case 3
      then have "Suc (k + (n - Suc k)) = n" "k + (n - k) = n" "n \<noteq> k" "k \<le> n"
        by simp_all
      then show ?thesis
        using n 3 by (simp add: bit_simps del: push_bit_Suc drop_bit_Suc)
    qed
  qed
  have dd: "drop_bit 1 (drop_bit k v) = drop_bit (Suc k) v"
    by (simp add: drop_bit_drop_bit)
  have b0: "bit (drop_bit k v) 0 = bit v k"
    by (simp add: bit_simps)
  have "[k..<32] = k # [Suc k..<32]"
    using k by (simp add: upt_conv_Cons)
  then show ?case
    using IH by (simp add: dd b0 split gf2_linearD [OF f] gf2_linear_zero [OF f])
qed

lemma gf2_apply_columns: "gf2_linear f \<Longrightarrow> gf2_apply (gf2_columns f) v = f v"
  using gf2_apply_columns_from [of f 0 v] by (simp add: gf2_columns_def)

lemma gf2_apply_pow2:
  "n < length mat \<Longrightarrow> n < 32 \<Longrightarrow> gf2_apply mat (2 ^ n) = mat ! n"
  using gf2_apply_unit [of n mat] by simp

lemma gf2_square_columns:
  assumes "length mat = 32"
  shows "gf2_matrix_square mat = gf2_columns (gf2_apply mat \<circ> gf2_apply mat)"
  unfolding gf2_matrix_square_def gf2_columns_def
  by (rule map_cong) (simp_all add: gf2_times_apply [OF assms] gf2_apply_pow2 assms)

lemma gf2_square_apply:
  "length mat = 32 \<Longrightarrow> gf2_apply (gf2_matrix_square mat) v = gf2_apply mat (gf2_apply mat v)"
  by (simp add: gf2_square_columns gf2_apply_columns gf2_linear_comp gf2_linear_apply)

lemma length_gf2_square [simp]: "length (gf2_matrix_square mat) = 32"
  by (simp add: gf2_matrix_square_def)

lemma odd_init_columns: "odd_init = gf2_columns crc32_bit"
proof -
  have "[0..<32] = 0 # [1..<32]"
    by (simp add: upt_conv_Cons)
  moreover have "map (\<lambda>n. push_bit (n - 1) (1 :: ulong)) [1..<32] = map (\<lambda>n. crc32_bit (push_bit n 1)) [1..<32]"
  proof (rule map_cong [OF refl])
    fix n :: nat
    assume "n \<in> set [1..<32]"
    then have n: "1 \<le> n" "n < 32" by simp_all
    then obtain k where k: "n = Suc k" by (cases n) simp_all
    have "drop_bit 1 (push_bit (Suc k) (1 :: ulong)) = push_bit k 1"
      using n k by (intro bit_word_eqI) (auto simp add: bit_simps)
    moreover have "\<not> bit (push_bit (Suc k) (1 :: ulong)) 0"
      by (simp add: bit_simps)
    ultimately show "push_bit (n - 1) (1 :: ulong) = crc32_bit (push_bit n 1)"
      unfolding crc32_bit_def k by simp
  qed
  moreover have "crc32_bit (push_bit 0 1) = 0xedb88320"
    by (simp add: crc32_bit_def)
  ultimately show ?thesis
    by (simp add: odd_init_def gf2_columns_def)
qed

lemma crc32_bit_linear: "gf2_linear crc32_bit"
  unfolding gf2_linear_def
proof (intro allI)
  fix x y :: ulong
  have "drop_bit 1 (x XOR y) = drop_bit 1 x XOR drop_bit 1 y"
    by (rule bit_word_eqI) (simp add: bit_simps)
  then show "crc32_bit (x XOR y) = crc32_bit x XOR crc32_bit y"
    by (cases "bit x 0"; cases "bit y 0") (simp_all add: crc32_bit_def bit_simps ac_simps)
qed

lemma odd_init_apply: "gf2_apply odd_init = crc32_bit"
  by (rule ext) (simp add: odd_init_columns gf2_apply_columns crc32_bit_linear)

lemma funpow_bit_split:
  "(G ^^ (4 * (n div 2 div 2))) (((G \<circ> G) ^^ (n div 2 mod 2)) ((G ^^ (n mod 2)) x)) = (G ^^ n) x"
proof -
  have "(G \<circ> G) ^^ (n div 2 mod 2) = G ^^ (2 * (n div 2 mod 2))"
    using funpow_mult [where f = G and m = 2 and n = "n div 2 mod 2"]
    by (simp add: numeral_2_eq_2)
  then have "(G ^^ (4 * (n div 2 div 2))) (((G \<circ> G) ^^ (n div 2 mod 2)) ((G ^^ (n mod 2)) x))
      = (G ^^ (4 * (n div 2 div 2) + 2 * (n div 2 mod 2) + n mod 2)) x"
    by (simp add: funpow_add)
  moreover have "4 * (n div 2 div 2) + 2 * (n div 2 mod 2) + n mod 2 = n"
    by arith
  ultimately show ?thesis by simp
qed

lemma nat_and_one: "((n :: nat) AND 1 \<noteq> 0) = (n mod 2 = 1)"
  by (simp add: and_one_eq)

lemma crc32_comb_loop_funpow:
  "length odd_m = 32 \<Longrightarrow>
   crc32_comb_loop even_m odd_m crc1 len2 = ((gf2_apply odd_m \<circ> gf2_apply odd_m) ^^ len2) crc1"
proof (induction even_m odd_m crc1 len2 rule: crc32_comb_loop.induct)
  case (1 even_m odd_m crc1 len2)
  define G where "G = gf2_apply odd_m \<circ> gf2_apply odd_m"
  define even1 where "even1 = gf2_matrix_square odd_m"
  define crc1a where "crc1a = (if len2 AND 1 \<noteq> 0 then gf2_matrix_times even1 crc1 else crc1)"
  define len2a where "len2a = drop_bit 1 len2"
  define odd1 where "odd1 = gf2_matrix_square even1"
  define crc1b where "crc1b = (if len2a AND 1 \<noteq> 0 then gf2_matrix_times odd1 crc1a else crc1a)"
  define len2b where "len2b = drop_bit 1 len2a"
  have even1: "gf2_apply even1 = G"
    unfolding even1_def G_def using "1.prems" by (intro ext) (simp add: gf2_square_apply)
  have odd1: "gf2_apply odd1 = G \<circ> G"
    unfolding odd1_def by (intro ext) (simp add: gf2_square_apply even1_def even1 [unfolded even1_def])
  have len_even1: "length even1 = 32" and len_odd1: "length odd1 = 32"
    by (simp_all add: even1_def odd1_def)
  have a: "crc1a = (G ^^ (len2 mod 2)) crc1"
    unfolding crc1a_def nat_and_one
    by (cases "len2 mod 2 = 1") (simp_all add: gf2_times_apply len_even1 even1)
  have b: "crc1b = ((G \<circ> G) ^^ (len2 div 2 mod 2)) crc1a"
    unfolding crc1b_def nat_and_one len2a_def
    by (cases "len2 div 2 mod 2 = 1") (simp_all add: gf2_times_apply len_odd1 odd1 drop_bit_eq_div)
  have la: "len2a = len2 div 2" and lb: "len2b = len2 div 2 div 2"
    by (simp_all add: len2a_def len2b_def drop_bit_eq_div)
  have unfold: "crc32_comb_loop even_m odd_m crc1 len2 =
      (if len2a = 0 then crc1a
       else if len2b \<noteq> 0 then crc32_comb_loop even1 odd1 crc1b len2b else crc1b)"
    by (subst crc32_comb_loop.simps)
      (simp add: Let_def even1_def crc1a_def len2a_def odd1_def crc1b_def len2b_def)
  have "crc32_comb_loop even_m odd_m crc1 len2 = (G ^^ len2) crc1"
  proof (cases "len2a = 0")
    case True
    then have "len2 = len2 mod 2"
      using la by arith
    then have "(G ^^ len2) crc1 = (G ^^ (len2 mod 2)) crc1"
      by simp
    with True show ?thesis
      by (simp add: unfold a)
  next
    case False
    have total: "(G ^^ (4 * len2b)) crc1b = (G ^^ len2) crc1"
      unfolding b a lb by (rule funpow_bit_split)
    show ?thesis
    proof (cases "len2b = 0")
      case True
      with total False show ?thesis
        by (simp add: unfold)
    next
      case nz: False
      have "crc32_comb_loop even1 odd1 crc1b len2b
          = ((gf2_apply odd1 \<circ> gf2_apply odd1) ^^ len2b) crc1b"
        using "1.IH" [OF even1_def crc1a_def len2a_def False odd1_def crc1b_def len2b_def nz len_odd1] .
      also have "gf2_apply odd1 \<circ> gf2_apply odd1 = G ^^ 4"
        by (simp add: odd1 eval_nat_numeral o_assoc)
      also have "((G ^^ 4) ^^ len2b) crc1b = (G ^^ (4 * len2b)) crc1b"
        by (simp add: funpow_mult)
      finally show ?thesis
        using total False nz by (simp add: unfold)
    qed
  qed
  then show ?case
    by (simp only: G_def)
qed

lemma crc32_bit_funpow_xor:
  "(crc32_bit ^^ n) (x XOR y) = (crc32_bit ^^ n) x XOR (crc32_bit ^^ n) y"
  by (induction n) (simp_all add: gf2_linearD [OF crc32_bit_linear])

lemma crc32_byte_xor:
  "crc32_byte (c XOR d) x = crc32_byte c x XOR (crc32_bit ^^ 8) d"
  unfolding crc32_byte_def by (simp only: crc32_bit_funpow_xor ac_simps)

lemma crc32_fold_xor:
  "foldl crc32_byte (c XOR d) xs = foldl crc32_byte c xs XOR (crc32_bit ^^ (8 * length xs)) d"
proof (induction xs arbitrary: c d)
  case Nil
  show ?case by simp
next
  case (Cons x xs)
  have "8 * length (x # xs) = 8 * length xs + 8"
    by simp
  then have "(crc32_bit ^^ (8 * length xs)) ((crc32_bit ^^ 8) d) = (crc32_bit ^^ (8 * length (x # xs))) d"
    by (simp only: funpow_add o_apply)
  then show ?case
    by (simp only: foldl_Cons crc32_byte_xor Cons.IH)
qed

lemma crc32_comb_eq:
  "crc32_comb crc1 crc2 len2 = (crc32_bit ^^ (8 * len2)) crc1 XOR (if len2 = 0 then 0 else crc2)"
proof (cases "len2 = 0")
  case True
  then show ?thesis
    by (simp add: crc32_comb_def)
next
  case False
  define even2 where "even2 = gf2_matrix_square odd_init"
  define odd4 where "odd4 = gf2_matrix_square even2"
  have len: "length odd_init = 32"
    by (simp add: odd_init_def)
  have "gf2_apply even2 = crc32_bit ^^ 2"
    unfolding even2_def by (rule ext) (simp add: gf2_square_apply len odd_init_apply eval_nat_numeral)
  then have "gf2_apply odd4 = crc32_bit ^^ 4"
    unfolding odd4_def by (intro ext) (simp add: gf2_square_apply even2_def eval_nat_numeral)
  then have "gf2_apply odd4 \<circ> gf2_apply odd4 = crc32_bit ^^ 8"
    by (simp add: eval_nat_numeral o_assoc)
  then have "crc32_comb_loop even2 odd4 crc1 len2 = ((crc32_bit ^^ 8) ^^ len2) crc1"
    by (simp add: crc32_comb_loop_funpow odd4_def)
  then show ?thesis
    using False by (simp add: crc32_comb_def Let_def even2_def odd4_def funpow_mult)
qed

lemma crc32_append:
  "crc32 crc32_init (A @ B) = (crc32_bit ^^ (8 * length B)) (crc32 crc32_init A) XOR crc32 crc32_init B"
proof -
  define F :: ulong where "F = 0xffffffff"
  define a where "a = crc32 crc32_init A"
  have "foldl crc32_byte F A = a XOR F"
    by (simp add: a_def crc32_def crc32_init_def F_def xor.assoc)
  then have "foldl crc32_byte F (A @ B) = foldl crc32_byte (F XOR a) B"
    by (simp add: xor.commute)
  also have "\<dots> = foldl crc32_byte F B XOR (crc32_bit ^^ (8 * length B)) a"
    by (rule crc32_fold_xor)
  finally show ?thesis
    by (simp add: crc32_def crc32_init_def F_def [symmetric] a_def ac_simps)
qed

lemma crc32_empty: "crc32 crc32_init [] = crc32_init"
  by (simp add: crc32_def crc32_init_def)

lemma crc32_comb_append:
  "crc32_comb (crc32 crc32_init A) (crc32 crc32_init B) (length B) = crc32 crc32_init (A @ B)"
  by (cases "B = []") (simp_all add: crc32_comb_eq crc32_append)

lemma crc32_comb_fold:
  "foldl (\<lambda>c blk. crc32_comb c (crc32 crc32_init blk) (length blk)) (crc32 crc32_init P) blocks
     = crc32 crc32_init (P @ concat blocks)"
proof (induction blocks arbitrary: P)
  case Nil
  show ?case by simp
next
  case (Cons b bs)
  show ?case
    using Cons.IH [of "P @ b"] by (simp add: crc32_comb_append)
qed

text \<open>
  C2. Combining the CRC-32 of \<open>A\<close> with the CRC-32 of \<open>B\<close> and the length of \<open>B\<close>
  gives the CRC-32 of \<open>A\<close> followed by \<open>B\<close>, for sequences of any length, the empty
  one included; so folding \<open>crc32_comb\<close> over the CRC-32 values of the blocks of a partition,
  in block order and from the value of the empty sequence, gives the CRC-32 of the whole.
\<close>

theorem crc32_comb_concat:
  "crc32_comb (crc32 crc32_init A) (crc32 crc32_init B) (length B) = crc32 crc32_init (A @ B)
   \<and> foldl (\<lambda>c blk. crc32_comb c (crc32 crc32_init blk) (length blk)) crc32_init blocks
       = crc32 crc32_init (concat blocks)"
  using crc32_comb_fold [of "[]" blocks] by (simp add: crc32_comb_append crc32_empty)


text \<open>
  C3. \<open>adler32_comb\<close> reduces its two sums with \<open>>\<close> where \<open>\<ge>\<close> is needed, so a sum
  that comes out as exactly 65521 is left unreduced. The smallest instance is the one the
  writer meets on an empty input in the zlib format: both sequences empty, where the
  combination is \<open>0xFFF10001\<close> and the Adler-32 of the concatenation is 1.
\<close>

theorem adler32_comb_empty_blocks:
  "adler32_comb (adler32 adler32_init []) (adler32 adler32_init []) (length ([] :: byte list))
     = 0xFFF10001
   \<and> adler32 adler32_init ([] @ []) = 1"
  by (simp add: adler32_comb_def adler32_def adler32_init_def BASE_def LOW16_def)

section \<open>Parallel compression: proofs\<close>

subsection \<open>Ring indices\<close>

lemma mod_window_unique:
  fixes N :: nat
  assumes "a \<le> i" "i < a + N" "a \<le> j" "j < a + N" "i mod N = j mod N"
  shows "i = j"
proof -
  have *: "x = y" if "x \<le> y" "y < x + N" "x mod N = y mod N" for x y :: nat
  proof -
    have "N dvd y - x"
      using that(1) that(3) [symmetric] by (simp add: mod_eq_dvd_iff_nat)
    moreover have "y - x < N"
      using that by simp
    ultimately have "y - x = 0"
      using nat_dvd_not_less by fastforce
    with that show ?thesis by simp
  qed
  show ?thesis
  proof (cases "i \<le> j")
    case True
    with assms show ?thesis by (rule_tac *) simp_all
  next
    case False
    with assms have "j = i" by (rule_tac *) simp_all
    then show ?thesis by simp
  qed
qed

lemma NEXT_mod: "0 < procs g \<Longrightarrow> NEXT g (k mod procs g) = Suc k mod procs g"
proof -
  assume N: "0 < procs g"
  show ?thesis
  proof (cases "k mod procs g = procs g - 1")
    case True
    then have "Suc (k mod procs g) = procs g"
      using N by simp
    then have "Suc k mod procs g = 0"
      by (metis mod_Suc)
    with True show ?thesis
      by (simp add: NEXT_def)
  next
    case False
    then have "Suc (k mod procs g) \<noteq> procs g"
      by simp
    then have "Suc k mod procs g = Suc (k mod procs g)"
      by (simp add: mod_Suc)
    with False show ?thesis
      by (simp add: NEXT_def)
  qed
qed

subsection \<open>Blocks\<close>

lemma length_block: "length (block S inp i) = min S (length inp - i * S)"
  by (simp add: block_def min.commute)

lemma block_full:
  assumes "0 < S" "i < length inp div S"
  shows "length (block S inp i) = S"
proof -
  have "Suc i * S \<le> (length inp div S) * S"
    using assms by (intro mult_le_mono1) simp
  also have "\<dots> \<le> length inp"
    by simp
  finally show ?thesis
    by (simp add: length_block)
qed

lemma block_last:
  assumes "0 < S"
  shows "length (block S inp (length inp div S)) = length inp mod S"
proof -
  have "length inp - (length inp div S) * S = length inp mod S"
    by (simp add: minus_div_mult_eq_mod)
  then show ?thesis
    using assms by (simp add: length_block)
qed

lemma block_short_iff:
  assumes "0 < S" "i \<le> length inp div S"
  shows "length (block S inp i) = S \<longleftrightarrow> i < length inp div S"
proof (cases "i < length inp div S")
  case True
  then show ?thesis
    using block_full [OF assms(1)] by simp
next
  case False
  with assms have "i = length inp div S"
    by simp
  moreover have "length inp mod S < S"
    using assms(1) by simp
  ultimately show ?thesis
    using block_last [OF assms(1), of inp] by simp
qed

lemma read_block:
  "take S (drop (i * S) inp) = block S inp i" "drop S (drop (i * S) inp) = drop (Suc i * S) inp"
  by (simp_all add: block_def add.commute)

subsection \<open>What a compressor computes\<close>

lemma compress_thread_result:
  assumes "job_todo data (js n)"
  shows "compress_thread g js n =
    (js n)\<lparr>job_check := fst (compress_result g (job_buf (js (PREV g n))) data),
           job_strm := snd (compress_result g (job_buf (js (PREV g n))) data)\<rparr>"
  using assms
  by (auto simp add: compress_thread_def compress_result_def job_todo_def Let_def split: prod.splits)

lemma compress_thread_done:
  assumes "job_todo data (js n)"
  shows "job_done g (job_buf (js (PREV g n))) data ((compress_thread g js n)\<lparr>job_comp := c\<rparr>)"
  using assms
  by (auto simp add: compress_thread_result [where data = data and js = js and n = n]
      job_done_def job_todo_def)

subsection \<open>The invariant holds at the start\<close>

lemma pipeline_inv_init:
  assumes "pool_idle g js" "0 < procs g"
  shows "pipeline_inv g ext inp 0 0 ds (read_thread_init js inp)"
  using assms
  by (simp add: pipeline_inv_def inv_reader_def inv_flags_def inv_threads_def inv_writer_def
      read_thread_init_def pool_idle_def created_def joined_def)

subsection \<open>Steps of the reader\<close>

lemma reader_inv_reader:
  assumes inv: "pipeline_inv g ext inp rk wk ds s"
    and st: "reader_step g ext s = Some s'"
    and S: "0 < bsize g" and N: "0 < procs g"
  shows "inv_reader g inp (if r_pc s = R_set then Suc rk else rk) s'"
proof -
  have R: "inv_reader g inp rk s"
    using inv by (simp add: pipeline_inv_def)
  show ?thesis
  proof (cases "r_pc s")
    case R_init
    with R st show ?thesis
      by (auto simp add: inv_reader_def reader_step_def Let_def job_init_def)
  next
    case R_wait1
    with R st show ?thesis
      by (auto simp add: inv_reader_def reader_step_def Let_def split: if_splits)
  next
    case R_wait2
    with R st show ?thesis
      by (auto simp add: inv_reader_def reader_step_def Let_def split: if_splits)
  next
    case R_read
    with R st show ?thesis
      by (auto simp add: inv_reader_def reader_step_def Let_def read_block)
  next
    case R_wait3
    with R st show ?thesis
      by (auto simp add: inv_reader_def reader_step_def Let_def split: if_splits)
  next
    case R_create
    with R st show ?thesis
      by (auto simp add: inv_reader_def reader_step_def Let_def)
  next
    case R_set
    with R have rk: "rk \<le> length inp div bsize g" and n: "r_n s = rk mod procs g"
      and got: "r_got s = length (block (bsize g) inp rk)"
      and ind: "ind s = drop (Suc rk * bsize g) inp"
      by (simp_all add: inv_reader_def)
    from R_set st have s': "s' = s\<lparr>jobs := (jobs s)(r_n s := (jobs s (r_n s))\<lparr>job_busy := COMP\<rparr>),
        r_n := NEXT g (r_n s), r_pc := (if r_got s = bsize g then R_init else R_join)\<rparr>"
      by (simp add: reader_step_def Let_def)
    show ?thesis
    proof (cases "r_got s = bsize g")
      case True
      then have "rk < length inp div bsize g"
        using block_short_iff [OF S rk] got by simp
      then show ?thesis
        using True R_set ind n by (simp add: s' inv_reader_def NEXT_mod [OF N])
    next
      case False
      then have "rk = length inp div bsize g"
        using block_short_iff [OF S rk] got rk by simp
      then show ?thesis
        using False R_set by (simp add: s' inv_reader_def)
    qed
  next
    case R_join
    with R st show ?thesis
      by (auto simp add: inv_reader_def reader_step_def Let_def split: if_splits)
  next
    case R_done
    with st show ?thesis
      by (simp add: reader_step_def)
  qed
qed

lemma reader_frame_writer:
  assumes "reader_step g ext s = Some s'"
  shows "w_pc s' = w_pc s" "w_n s' = w_n s" "w_len s' = w_len s" "w_head s' = w_head s"
    "w_ulen s' = w_ulen s" "w_clen s' = w_clen s" "w_check s' = w_check s" "outd s' = outd s"
  using assms
  by (auto simp add: reader_step_def Let_def split: rpc.splits if_splits)

lemma reader_inv_writer:
  assumes "pipeline_inv g ext inp rk wk ds s" and "reader_step g ext s = Some s'"
  shows "inv_writer g ext inp wk ds s'"
  using assms(1) reader_frame_writer [OF assms(2)]
  by (simp add: pipeline_inv_def inv_writer_def written_def)

lemma reader_frame_busy:
  assumes "reader_step g ext s = Some s'" "r_pc s \<noteq> R_set"
  shows "job_busy (jobs s' j) = job_busy (jobs s j)" "r_n s' = r_n s"
  using assms
  by (auto simp add: reader_step_def Let_def job_init_def split: rpc.splits if_splits)

lemma slot_busy:
  assumes "inv_flags g rk wk s" "wk \<le> i" "i < rk"
  shows "job_busy (jobs s (i mod procs g)) \<noteq> IDLE"
  using assms by (simp add: inv_flags_def)

lemma window_nonempty:
  assumes "inv_flags g rk wk s" "w_pc s \<in> {W_join, W_setw, W_write, W_release}"
  shows "wk < rk"
  using assms unfolding inv_flags_def by blast

lemma inv_flags_frame:
  assumes "inv_flags g rk wk s"
    and "\<And>j. job_busy (jobs s' j) = job_busy (jobs s j)"
    and "w_pc s' = w_pc s" and "r_n s' = r_n s"
    and "r_pc s' \<in> {R_wait2, R_read, R_wait3} \<Longrightarrow> job_busy (jobs s (r_n s)) \<noteq> COMP"
    and "r_pc s' \<in> {R_create, R_set} \<Longrightarrow> job_busy (jobs s (r_n s)) = IDLE \<and> rk < wk + procs g"
  shows "inv_flags g rk wk s'"
  using assms unfolding inv_flags_def by simp

lemma reader_pc_next:
  assumes "reader_step g ext s = Some s'"
  shows "r_pc s = R_init \<Longrightarrow> r_pc s' = R_wait1"
    "r_pc s = R_wait1 \<Longrightarrow> r_pc s' = R_wait2 \<and> job_busy (jobs s (r_n s)) \<noteq> COMP"
    "r_pc s = R_wait2 \<Longrightarrow> r_pc s' = R_read"
    "r_pc s = R_read \<Longrightarrow> r_pc s' = R_wait3"
    "r_pc s = R_wait3 \<Longrightarrow> r_pc s' = R_create \<and> job_busy (jobs s (r_n s)) = IDLE"
    "r_pc s = R_create \<Longrightarrow> r_pc s' = R_set"
    "r_pc s = R_join \<Longrightarrow> r_pc s' = R_done"
    "r_pc s \<noteq> R_done"
  using assms
  by (auto simp add: reader_step_def Let_def split: rpc.splits if_splits)

lemma reader_inv_flags:
  assumes inv: "pipeline_inv g ext inp rk wk ds s"
    and st: "reader_step g ext s = Some s'"
    and N: "0 < procs g"
  shows "inv_flags g (if r_pc s = R_set then Suc rk else rk) wk s'"
proof (cases "r_pc s = R_set")
  case False
  have F: "inv_flags g rk wk s" and R: "inv_reader g inp rk s"
    using inv by (simp_all add: pipeline_inv_def)
  note wf = reader_frame_writer [OF st] and bf = reader_frame_busy [OF st False]
    and pc = reader_pc_next [OF st]
  have n: "r_n s = rk mod procs g" if "r_pc s = R_wait3"
    using R that by (simp add: inv_reader_def)
  have lt: "rk < wk + procs g" if w3: "r_pc s = R_wait3"
  proof (rule ccontr)
    assume "\<not> rk < wk + procs g"
    with F have rk: "rk = wk + procs g"
      by (simp add: inv_flags_def)
    then have "wk mod procs g = r_n s"
      using n [OF w3] by simp
    moreover have "job_busy (jobs s (wk mod procs g)) \<noteq> IDLE"
      using slot_busy [OF F, of wk] rk N by simp
    ultimately show False
      using pc(5) [OF w3] by simp
  qed
  have "inv_flags g rk wk s'"
  proof (rule inv_flags_frame [OF F bf(1) wf(1) bf(2)])
    assume "r_pc s' \<in> {R_wait2, R_read, R_wait3}"
    then show "job_busy (jobs s (r_n s)) \<noteq> COMP"
      using F pc by (cases "r_pc s") (auto simp add: inv_flags_def)
  next
    assume "r_pc s' \<in> {R_create, R_set}"
    then show "job_busy (jobs s (r_n s)) = IDLE \<and> rk < wk + procs g"
      using F pc lt by (cases "r_pc s") (auto simp add: inv_flags_def)
  qed
  with False show ?thesis by simp
next
  case R_set: True
  have F: "inv_flags g rk wk s" and R: "inv_reader g inp rk s"
    using inv by (simp_all add: pipeline_inv_def)
  note wf = reader_frame_writer [OF st]
  from R_set R have n: "r_n s = rk mod procs g"
    by (simp add: inv_reader_def)
  from R_set F have idle: "job_busy (jobs s (r_n s)) = IDLE" and lt: "rk < wk + procs g"
    by (simp_all add: inv_flags_def)
  from R_set st have s': "s' = s\<lparr>jobs := (jobs s)(r_n s := (jobs s (r_n s))\<lparr>job_busy := COMP\<rparr>),
      r_n := NEXT g (r_n s), r_pc := (if r_got s = bsize g then R_init else R_join)\<rparr>"
    by (simp add: reader_step_def Let_def)
  have busy': "job_busy (jobs s' j) = (if j = r_n s then COMP else job_busy (jobs s j))" for j
    by (simp add: s')
  have pc': "r_pc s' \<in> {R_init, R_join}"
    by (simp add: s')
  have other: "i mod procs g \<noteq> r_n s" if "wk \<le> i" "i < rk" for i
    using slot_busy [OF F that] idle by auto
  have wlt: "wk < rk" if "w_pc s \<in> {W_join, W_setw, W_write, W_release}"
    using window_nonempty [OF F that] .
  have F2: "job_busy (jobs s' (i mod procs g)) =
      (if i = wk \<and> w_pc s' \<in> {W_write, W_release} then WRITE else COMP)"
    if "wk \<le> i \<and> i < Suc rk" for i
  proof (cases "i = rk")
    case True
    then show ?thesis
      using wlt wf(1) by (auto simp add: busy' n)
  next
    case False
    with that have "wk \<le> i" "i < rk" by simp_all
    with other [of i] F show ?thesis
      by (simp add: busy' wf(1) inv_flags_def)
  qed
  have F3: "job_busy (jobs s' j) = IDLE"
    if "j < procs g" "\<forall>i. wk \<le> i \<and> i < Suc rk \<longrightarrow> i mod procs g \<noteq> j" for j
  proof -
    have "j \<noteq> r_n s"
      using that(2) F n by (auto simp add: inv_flags_def)
    moreover have "\<forall>i. wk \<le> i \<and> i < rk \<longrightarrow> i mod procs g \<noteq> j"
      using that(2) by simp
    ultimately show ?thesis
      using F that(1) by (simp add: busy' inv_flags_def)
  qed
  have "wk \<le> Suc rk" "Suc rk \<le> wk + procs g"
    using F lt by (simp_all add: inv_flags_def)
  moreover have "w_pc s' \<in> {W_join, W_setw, W_write, W_release} \<longrightarrow> wk < Suc rk"
    using wlt wf(1) by auto
  ultimately have "inv_flags g (Suc rk) wk s'"
    using F2 F3 pc' unfolding inv_flags_def by auto
  with R_set show ?thesis by simp
qed

lemma inv_threads_frame:
  assumes "inv_threads g inp rk wk ds s"
    and "\<And>j. job_comp (jobs s' j) = job_comp (jobs s j)"
    and "\<And>j. job_len (jobs s' j) = job_len (jobs s j)"
    and "\<And>j. job_buf (jobs s' j) = job_buf (jobs s j)"
    and "\<And>j. job_check (jobs s' j) = job_check (jobs s j)"
    and "\<And>j. job_strm (jobs s' j) = job_strm (jobs s j)"
    and "w_pc s' = w_pc s" and "created rk' s' = created rk s"
  shows "inv_threads g inp rk' wk ds s'"
  using assms unfolding inv_threads_def job_todo_def job_done_def joined_def by simp

lemma threads_window:
  assumes "inv_threads g inp rk wk ds s" "joined wk s \<le> i" "i < created rk s"
  shows "(job_comp (jobs s (i mod procs g)) = Running \<and>
           job_todo (block (bsize g) inp i) (jobs s (i mod procs g)))
        \<or> (job_comp (jobs s (i mod procs g)) = Finished \<and>
           job_done g (ds i) (block (bsize g) inp i) (jobs s (i mod procs g)))"
  using assms unfolding inv_threads_def by blast

lemma threads_joined:
  assumes "inv_threads g inp rk wk ds s" "w_pc s \<in> {W_setw, W_write}"
  shows "job_done g (ds wk) (block (bsize g) inp wk) (jobs s (wk mod procs g))"
  using assms unfolding inv_threads_def by blast

lemma threads_none:
  assumes "inv_threads g inp rk wk ds s" "j < procs g"
    "\<And>i. joined wk s \<le> i \<Longrightarrow> i < created rk s \<Longrightarrow> i mod procs g \<noteq> j"
  shows "job_comp (jobs s j) = NoThread"
  using assms unfolding inv_threads_def by blast

lemma inv_threadsI:
  assumes "\<And>i. joined wk s \<le> i \<Longrightarrow> i < created rk s \<Longrightarrow>
        (job_comp (jobs s (i mod procs g)) = Running \<and>
           job_todo (block (bsize g) inp i) (jobs s (i mod procs g)))
        \<or> (job_comp (jobs s (i mod procs g)) = Finished \<and>
           job_done g (ds i) (block (bsize g) inp i) (jobs s (i mod procs g)))"
    and "w_pc s \<in> {W_setw, W_write} \<Longrightarrow>
        job_done g (ds wk) (block (bsize g) inp wk) (jobs s (wk mod procs g))"
    and "\<And>j. j < procs g \<Longrightarrow>
        (\<forall>i. joined wk s \<le> i \<and> i < created rk s \<longrightarrow> i mod procs g \<noteq> j) \<Longrightarrow>
        job_comp (jobs s j) = NoThread"
  shows "inv_threads g inp rk wk ds s"
  using assms unfolding inv_threads_def by blast

lemma joined_ge: "wk \<le> joined wk s"
  by (simp add: joined_def)

lemma job_todo_buf: "job_todo data job \<Longrightarrow> job_buf job \<noteq> None"
  by (auto simp add: job_todo_def)

lemma job_done_buf: "job_done g d data job \<Longrightarrow> job_buf job \<noteq> None"
  by (simp add: job_done_def)

lemma reader_inv_threads:
  assumes inv: "pipeline_inv g ext inp rk wk ds s"
    and st: "reader_step g ext s = Some s'"
    and N: "0 < procs g"
  shows "inv_threads g inp (if r_pc s = R_set then Suc rk else rk) wk ds s'"
proof -
  have F: "inv_flags g rk wk s" and R: "inv_reader g inp rk s"
    and T: "inv_threads g inp rk wk ds s"
    using inv by (simp_all add: pipeline_inv_def)
  note wf = reader_frame_writer [OF st] and pc = reader_pc_next [OF st]
  have j': "joined wk s' = joined wk s"
    by (simp add: joined_def wf)
  have n: "r_n s = rk mod procs g" if "r_pc s \<notin> {R_join, R_done}"
    using R that by (simp add: inv_reader_def)
  consider (same) "jobs s' = jobs s" "r_pc s \<noteq> R_set" "r_pc s \<noteq> R_create"
    | (init) "r_pc s = R_init" "job_buf (jobs s (r_n s)) = None"
    | (read) "r_pc s = R_read" | (create) "r_pc s = R_create" | (set) "r_pc s = R_set"
    using st pc(8) by (cases "r_pc s") (auto simp add: reader_step_def Let_def split: if_splits)
  then show ?thesis
  proof cases
    case same
    have "created rk s' = created rk s"
      using pc same(2,3) by (cases "r_pc s") (auto simp add: created_def)
    then have "inv_threads g inp rk wk ds s'"
      using T by (intro inv_threads_frame [OF T]) (simp_all add: same wf)
    with same show ?thesis by simp
  next
    case set
    with st have s': "s' = s\<lparr>jobs := (jobs s)(r_n s := (jobs s (r_n s))\<lparr>job_busy := COMP\<rparr>),
        r_n := NEXT g (r_n s), r_pc := (if r_got s = bsize g then R_init else R_join)\<rparr>"
      by (simp add: reader_step_def Let_def)
    have "created (Suc rk) s' = created rk s"
      using set by (simp add: created_def s')
    then have "inv_threads g inp (Suc rk) wk ds s'"
      by (intro inv_threads_frame [OF T]) (simp_all add: s')
    with set show ?thesis by simp
  next
    case init
    with st have s': "s' = s\<lparr>jobs := (jobs s)(r_n s := job_init g ext (r_n s) (jobs s (r_n s))),
        r_pc := R_wait1\<rparr>"
      by (simp add: reader_step_def Let_def)
    have c': "created rk s' = created rk s"
      using init by (simp add: created_def s')
    have other: "jobs s' j = jobs s j" if "j \<noteq> r_n s" for j
      using that by (simp add: s')
    have comp': "job_comp (jobs s' j) = job_comp (jobs s j)" for j
      by (simp add: s' job_init_def)
    have "inv_threads g inp rk wk ds s'"
    proof (rule inv_threadsI)
      fix i
      assume i: "joined wk s' \<le> i" "i < created rk s'"
      then have w: "(job_comp (jobs s (i mod procs g)) = Running \<and>
           job_todo (block (bsize g) inp i) (jobs s (i mod procs g)))
        \<or> (job_comp (jobs s (i mod procs g)) = Finished \<and>
           job_done g (ds i) (block (bsize g) inp i) (jobs s (i mod procs g)))"
        using threads_window [OF T, of i] by (simp add: j' c')
      then have "job_buf (jobs s (i mod procs g)) \<noteq> None"
        using job_todo_buf job_done_buf by blast
      with init have "i mod procs g \<noteq> r_n s"
        by auto
      with w show "(job_comp (jobs s' (i mod procs g)) = Running \<and>
           job_todo (block (bsize g) inp i) (jobs s' (i mod procs g)))
        \<or> (job_comp (jobs s' (i mod procs g)) = Finished \<and>
           job_done g (ds i) (block (bsize g) inp i) (jobs s' (i mod procs g)))"
        by (simp add: other)
    next
      assume "w_pc s' \<in> {W_setw, W_write}"
      then have d: "job_done g (ds wk) (block (bsize g) inp wk) (jobs s (wk mod procs g))"
        using threads_joined [OF T] by (simp add: wf)
      then have "wk mod procs g \<noteq> r_n s"
        using job_done_buf init by force
      with d show "job_done g (ds wk) (block (bsize g) inp wk) (jobs s' (wk mod procs g))"
        by (simp add: other)
    next
      fix j
      assume "j < procs g" "\<forall>i. joined wk s' \<le> i \<and> i < created rk s' \<longrightarrow> i mod procs g \<noteq> j"
      then show "job_comp (jobs s' j) = NoThread"
        using threads_none [OF T, of j] by (simp add: comp' j' c')
    qed
    with init show ?thesis by simp
  next
    case read
    with st have s': "s' = s\<lparr>jobs := (jobs s)(r_n s := (jobs s (r_n s))
          \<lparr>job_buf := Some (take (bsize g) (ind s)
              @ drop (length (take (bsize g) (ind s))) (the (job_buf (jobs s (r_n s)))))\<rparr>),
        ind := drop (bsize g) (ind s), r_got := length (take (bsize g) (ind s)),
        r_pc := R_wait3\<rparr>"
      by (simp add: reader_step_def Let_def)
    have c: "created rk s' = rk" "created rk s = rk"
      using read by (simp_all add: created_def s')
    have other: "jobs s' j = jobs s j" if "j \<noteq> r_n s" for j
      using that by (simp add: s')
    have comp': "job_comp (jobs s' j) = job_comp (jobs s j)" for j
      by (simp add: s')
    have done': "job_done g d data (jobs s' j)" if "job_done g d data (jobs s j)" for d data j
      using that by (cases "j = r_n s") (simp_all add: s' job_done_def)
    have nc: "job_busy (jobs s (r_n s)) \<noteq> COMP"
      using F read by (simp add: inv_flags_def)
    have "inv_threads g inp rk wk ds s'"
    proof (rule inv_threadsI)
      fix i
      assume i: "joined wk s' \<le> i" "i < created rk s'"
      then have i2: "joined wk s \<le> i" "i < rk" "wk \<le> i"
        using joined_ge [of wk s] by (simp_all add: j' c)
      have w: "(job_comp (jobs s (i mod procs g)) = Running \<and>
           job_todo (block (bsize g) inp i) (jobs s (i mod procs g)))
        \<or> (job_comp (jobs s (i mod procs g)) = Finished \<and>
           job_done g (ds i) (block (bsize g) inp i) (jobs s (i mod procs g)))"
        using threads_window [OF T, of i] i2 by (simp add: c)
      have "i mod procs g \<noteq> r_n s"
      proof
        assume eq: "i mod procs g = r_n s"
        then have "i = wk \<and> w_pc s \<in> {W_write, W_release}"
          using F i2 nc unfolding inv_flags_def by (metis (full_types))
        then have "joined wk s = Suc wk" "i = wk"
          by (auto simp add: joined_def)
        with i2 show False by simp
      qed
      with w show "(job_comp (jobs s' (i mod procs g)) = Running \<and>
           job_todo (block (bsize g) inp i) (jobs s' (i mod procs g)))
        \<or> (job_comp (jobs s' (i mod procs g)) = Finished \<and>
           job_done g (ds i) (block (bsize g) inp i) (jobs s' (i mod procs g)))"
        by (simp add: other)
    next
      assume "w_pc s' \<in> {W_setw, W_write}"
      then show "job_done g (ds wk) (block (bsize g) inp wk) (jobs s' (wk mod procs g))"
        using threads_joined [OF T] done' by (simp add: wf)
    next
      fix j
      assume "j < procs g" "\<forall>i. joined wk s' \<le> i \<and> i < created rk s' \<longrightarrow> i mod procs g \<noteq> j"
      then show "job_comp (jobs s' j) = NoThread"
        using threads_none [OF T, of j] by (simp add: comp' j' c)
    qed
    with read show ?thesis by simp
  next
    case create
    with st have s': "s' = s\<lparr>jobs := (jobs s)(r_n s := (jobs s (r_n s))
          \<lparr>job_len := r_got s, job_comp := Running\<rparr>), r_pc := R_set\<rparr>"
      by (simp add: reader_step_def Let_def)
    have c: "created rk s' = Suc rk" "created rk s = rk"
      using create by (simp_all add: created_def s')
    have other: "jobs s' j = jobs s j" if "j \<noteq> r_n s" for j
      using that by (simp add: s')
    have idle: "job_busy (jobs s (r_n s)) = IDLE"
      using F create by (simp add: inv_flags_def)
    have rn: "r_n s = rk mod procs g"
      using n create by simp
    have free: "i mod procs g \<noteq> r_n s" if "wk \<le> i" "i < rk" for i
      using slot_busy [OF F that] idle by auto
    have new: "job_todo (block (bsize g) inp rk) (jobs s' (r_n s))"
      using R create by (auto simp add: inv_reader_def s' job_todo_def)
    have "inv_threads g inp rk wk ds s'"
    proof (rule inv_threadsI)
      fix i
      assume i: "joined wk s' \<le> i" "i < created rk s'"
      show "(job_comp (jobs s' (i mod procs g)) = Running \<and>
           job_todo (block (bsize g) inp i) (jobs s' (i mod procs g)))
        \<or> (job_comp (jobs s' (i mod procs g)) = Finished \<and>
           job_done g (ds i) (block (bsize g) inp i) (jobs s' (i mod procs g)))"
      proof (cases "i = rk")
        case True
        then show ?thesis
          using new by (simp add: rn [symmetric]) (simp add: s')
      next
        case False
        with i have i2: "joined wk s \<le> i" "i < rk" "wk \<le> i"
          using joined_ge [of wk s] by (simp_all add: j' c)
        then show ?thesis
          using threads_window [OF T, of i] free [of i] by (simp add: c other)
      qed
    next
      assume w: "w_pc s' \<in> {W_setw, W_write}"
      then have "wk < rk"
        using window_nonempty [OF F] by (auto simp add: wf)
      then have "wk mod procs g \<noteq> r_n s"
        using free [of wk] by simp
      then show "job_done g (ds wk) (block (bsize g) inp wk) (jobs s' (wk mod procs g))"
        using threads_joined [OF T] w by (simp add: wf other)
    next
      fix j
      assume j: "j < procs g" "\<forall>i. joined wk s' \<le> i \<and> i < created rk s' \<longrightarrow> i mod procs g \<noteq> j"
      have "joined wk s \<le> rk"
        using F window_nonempty [OF F] by (auto simp add: joined_def inv_flags_def)
      then have "j \<noteq> r_n s"
        using j(2) rn by (auto simp add: j' c)
      moreover have "\<And>i. joined wk s \<le> i \<Longrightarrow> i < created rk s \<Longrightarrow> i mod procs g \<noteq> j"
        using j(2) by (simp add: j' c)
      ultimately show "job_comp (jobs s' j) = NoThread"
        using threads_none [OF T j(1)] by (simp add: other)
    qed
    with create show ?thesis by simp
  qed
qed

lemma reader_step_inv:
  assumes "pipeline_inv g ext inp rk wk ds s" "reader_step g ext s = Some s'"
    "0 < bsize g" "0 < procs g"
  shows "\<exists>rk'. pipeline_inv g ext inp rk' wk ds s'"
  using reader_inv_reader [OF assms] reader_inv_flags [OF assms(1,2,4)]
    reader_inv_threads [OF assms(1,2,4)] reader_inv_writer [OF assms(1,2)]
  unfolding pipeline_inv_def by blast

subsection \<open>Steps of a compressor\<close>

lemma created_le:
  assumes "inv_flags g rk wk s"
  shows "created rk s \<le> wk + procs g" "rk \<le> created rk s"
proof -
  have "rk \<le> wk + procs g"
    using assms unfolding inv_flags_def by blast
  moreover have "rk < wk + procs g" if "r_pc s = R_set"
    using assms that unfolding inv_flags_def by blast
  ultimately show "created rk s \<le> wk + procs g" "rk \<le> created rk s"
    by (auto simp add: created_def)
qed

lemma written_le_joined: "written wk s \<le> joined wk s"
  by (simp add: written_def joined_def)

lemma inv_writer_ds:
  assumes "inv_writer g ext inp wk ds s" "\<And>i. i < written wk s \<Longrightarrow> ds' i = ds i"
  shows "inv_writer g ext inp wk ds' s"
proof -
  have eq: "block_out g ext inp ds' i = block_out g ext inp ds i" if "i < written wk s" for i
    using assms(2) [OF that] by (simp add: block_out_def)
  have e1: "concat (map (block_out g ext inp ds') [0..<written wk s])
      = concat (map (block_out g ext inp ds) [0..<written wk s])"
    by (rule arg_cong [where f = concat]) (simp add: eq)
  have e2: "sum_list (map (\<lambda>i. length (block_out g ext inp ds' i)) [0..<written wk s])
      = sum_list (map (\<lambda>i. length (block_out g ext inp ds i)) [0..<written wk s])"
    by (rule arg_cong [where f = sum_list]) (simp add: eq)
  show ?thesis
    using assms(1) unfolding inv_writer_def e1 e2 .
qed

lemma inv_reader_frame:
  assumes "inv_reader g inp rk s"
    and "r_pc s' = r_pc s" "r_n s' = r_n s" "ind s' = ind s" "r_got s' = r_got s"
    and "\<And>j. job_buf (jobs s' j) = job_buf (jobs s j)"
  shows "inv_reader g inp rk s'"
proof -
  have "inv_reader g inp rk s' = inv_reader g inp rk s"
    unfolding inv_reader_def by (simp only: assms(2-))
  with assms(1) show ?thesis by simp
qed

lemma inv_writer_frame:
  assumes "inv_writer g ext inp wk ds s"
    and "w_pc s' = w_pc s" "w_n s' = w_n s" "w_len s' = w_len s" "w_head s' = w_head s"
    and "w_ulen s' = w_ulen s" "w_clen s' = w_clen s" "w_check s' = w_check s" "outd s' = outd s"
  shows "inv_writer g ext inp wk ds s'"
proof -
  have "inv_writer g ext inp wk ds s' = inv_writer g ext inp wk ds s"
    unfolding inv_writer_def written_def by (simp only: assms(2-))
  with assms(1) show ?thesis by simp
qed

lemma compress_step_cases:
  assumes "compress_step g n s = Some s'"
  shows "n < procs g" "job_comp (jobs s n) = Running"
    "s' = s\<lparr>jobs := (jobs s)(n := (compress_thread g (jobs s) n)\<lparr>job_comp := Finished\<rparr>)\<rparr>"
  using assms by (simp_all add: compress_step_def split: if_splits)

lemma compress_thread_fields:
  "job_busy (compress_thread g js n) = job_busy (js n)"
  "job_buf (compress_thread g js n) = job_buf (js n)"
  "job_len (compress_thread g js n) = job_len (js n)"
  "job_comp (compress_thread g js n) = job_comp (js n)"
  by (simp_all add: compress_thread_def Let_def split: prod.splits)

lemma compress_step_inv:
  assumes inv: "pipeline_inv g ext inp rk wk ds s"
    and st: "compress_step g n s = Some s'"
    and N: "0 < procs g"
  shows "\<exists>ds'. pipeline_inv g ext inp rk wk ds' s'"
proof -
  have F: "inv_flags g rk wk s" and R: "inv_reader g inp rk s"
    and T: "inv_threads g inp rk wk ds s" and W: "inv_writer g ext inp wk ds s"
    using inv by (simp_all add: pipeline_inv_def)
  note c = compress_step_cases [OF st]
  have buf': "job_buf (jobs s' j) = job_buf (jobs s j)" for j
    by (simp add: c(3) compress_thread_fields)
  have busy': "job_busy (jobs s' j) = job_busy (jobs s j)" for j
    by (simp add: c(3) compress_thread_fields)
  have other: "jobs s' j = jobs s j" if "j \<noteq> n" for j
    using that by (simp add: c(3))
  have pcs: "r_pc s' = r_pc s" "w_pc s' = w_pc s" "r_n s' = r_n s"
    by (simp_all add: c(3))
  have cj: "created rk s' = created rk s" "joined wk s' = joined wk s" "written wk s' = written wk s"
    by (simp_all add: created_def joined_def written_def pcs)
  have R': "inv_reader g inp rk s'"
    by (rule inv_reader_frame [OF R]) (simp_all add: buf' pcs, simp_all add: c(3))
  have F': "inv_flags g rk wk s'"
    using F by (intro inv_flags_frame [OF F]) (auto simp add: busy' pcs inv_flags_def)
  obtain i where i: "joined wk s \<le> i" "i < created rk s" "i mod procs g = n"
    using threads_none [OF T c(1)] c(2) by auto
  have todo: "job_todo (block (bsize g) inp i) (jobs s n)"
    using threads_window [OF T i(1,2)] c(2) i(3) by auto
  define d where "d = job_buf (jobs s (PREV g n))"
  define ds' where "ds' = ds(i := d)"
  have new: "job_done g (ds' i) (block (bsize g) inp i) (jobs s' n)"
    using compress_thread_done [where js = "jobs s" and n = n and g = g and c = Finished, OF todo]
    by (simp add: c(3) ds'_def d_def)
  have uniq: "i' = i" if "wk \<le> i'" "i' < created rk s" "i' mod procs g = n" for i'
  proof (rule mod_window_unique [of wk i' "procs g" i])
    show "wk \<le> i'" by fact
    show "i' < wk + procs g" using that(2) created_le(1) [OF F] by simp
    show "wk \<le> i" using i(1) joined_ge [of wk s] by simp
    show "i < wk + procs g" using i(2) created_le(1) [OF F] by simp
    show "i' mod procs g = i mod procs g" using that(3) i(3) by simp
  qed
  have T': "inv_threads g inp rk wk ds' s'"
  proof (rule inv_threadsI)
    fix i'
    assume i': "joined wk s' \<le> i'" "i' < created rk s'"
    show "(job_comp (jobs s' (i' mod procs g)) = Running \<and>
           job_todo (block (bsize g) inp i') (jobs s' (i' mod procs g)))
        \<or> (job_comp (jobs s' (i' mod procs g)) = Finished \<and>
           job_done g (ds' i') (block (bsize g) inp i') (jobs s' (i' mod procs g)))"
    proof (cases "i' = i")
      case True
      then show ?thesis
        using new i(3) by (simp add: c(3))
    next
      case False
      then have "i' mod procs g \<noteq> n"
        using uniq [of i'] i' joined_ge [of wk s] by (auto simp add: cj)
      then show ?thesis
        using threads_window [OF T, of i'] i' False by (simp add: cj other ds'_def)
    qed
  next
    assume w: "w_pc s' \<in> {W_setw, W_write}"
    then have jw: "joined wk s = Suc wk"
      by (auto simp add: joined_def pcs)
    then have "wk \<noteq> i"
      using i(1) by simp
    moreover have "wk mod procs g \<noteq> n"
      using uniq [of wk] i(2) jw i(1) by auto
    ultimately show "job_done g (ds' wk) (block (bsize g) inp wk) (jobs s' (wk mod procs g))"
      using threads_joined [OF T] w by (simp add: pcs other ds'_def)
  next
    fix j
    assume j: "j < procs g" "\<forall>i. joined wk s' \<le> i \<and> i < created rk s' \<longrightarrow> i mod procs g \<noteq> j"
    then have "j \<noteq> n"
      using i by (auto simp add: cj)
    then show "job_comp (jobs s' j) = NoThread"
      using threads_none [OF T j(1)] j(2) by (simp add: cj other)
  qed
  have W': "inv_writer g ext inp wk ds' s'"
  proof -
    have "inv_writer g ext inp wk ds' s"
    proof (rule inv_writer_ds [OF W])
      fix k
      assume "k < written wk s"
      then have "k \<noteq> i"
        using written_le_joined [of wk s] i(1) by simp
      then show "ds' k = ds k"
        by (simp add: ds'_def)
    qed
    then show ?thesis
      by (rule inv_writer_frame) (simp_all add: c(3))
  qed
  show ?thesis
    using R' F' T' W' unfolding pipeline_inv_def by blast
qed

subsection \<open>Check values of pieces\<close>

lemma crc32_chunks: "crc32 (crc32 c a) b = crc32 c (a @ b)"
  by (simp add: crc32_def xor.assoc)

lemma adler32_byte_bound:
  "fst (adler32_byte ab x) < 65536 \<and> snd (adler32_byte ab x) < 65536"
proof -
  have "n mod 65521 < 65536" for n :: nat
    by (rule less_trans [of _ 65521]) simp_all
  then show ?thesis
    by (simp add: adler32_byte_def Let_def)
qed

lemma adler32_fold_bound:
  "fst ab < 65536 \<Longrightarrow> snd ab < 65536 \<Longrightarrow>
   fst (foldl adler32_byte ab xs) < 65536 \<and> snd (foldl adler32_byte ab xs) < 65536"
proof (induction xs arbitrary: ab)
  case Nil
  then show ?case by simp
next
  case (Cons x xs)
  show ?case
    using Cons.IH [of "adler32_byte ab x"] adler32_byte_bound [of ab x] by simp
qed

lemma adler32_pack:
  assumes "a < 65536" "b < 65536"
  shows "unat ((push_bit 16 (of_nat b) OR of_nat a :: ulong) AND 0xffff) = a"
    and "unat (drop_bit 16 (push_bit 16 (of_nat b) OR of_nat a :: ulong) AND 0xffff) = b"
proof -
  have m: "(0xffff :: ulong) = mask 16"
    by (simp add: mask_eq_exp_minus_1)
  have hi: "\<not> bit x n" if "x < 65536" "16 \<le> n" for x n :: nat
  proof -
    have "(2 :: nat) ^ 16 \<le> 2 ^ n"
      using that(2) by (intro power_increasing) simp_all
    with that(1) have "x < 2 ^ n"
      by simp
    then show ?thesis
      by (simp add: bit_iff_odd)
  qed
  have lo: "n < 16" if "bit x n" "x < 65536" for x n :: nat
    using hi [OF that(2), of n] that(1) by (cases "n < 16") simp_all
  have "(push_bit 16 (of_nat b) OR of_nat a :: ulong) AND mask 16 = of_nat a"
    by (rule bit_word_eqI) (auto simp add: bit_simps dest: lo [OF _ assms(1)])
  then show "unat ((push_bit 16 (of_nat b) OR of_nat a :: ulong) AND 0xffff) = a"
    using assms(1) by (simp add: m unat_of_nat)
  have "drop_bit 16 (push_bit 16 (of_nat b) OR of_nat a :: ulong) AND mask 16 = of_nat b"
    by (rule bit_word_eqI)
      (auto simp add: bit_simps dest: lo [OF _ assms(1)] lo [OF _ assms(2)])
  then show "unat (drop_bit 16 (push_bit 16 (of_nat b) OR of_nat a :: ulong) AND 0xffff) = b"
    using assms(2) by (simp add: m unat_of_nat)
qed

lemma adler32_chunks: "adler32 (adler32 c a) b = adler32 c (a @ b)"
proof -
  define ab0 where "ab0 = (unat (c AND 0xffff), unat (drop_bit 16 c AND 0xffff))"
  define ab where "ab = foldl adler32_byte ab0 a"
  have m: "(0xffff :: ulong) = mask 16"
    by (simp add: mask_eq_exp_minus_1)
  have lt: "unat (w AND mask 16) < 65536" for w :: ulong
  proof -
    have "w AND mask 16 < 2 ^ 16"
      by (rule and_mask_less') simp
    then show ?thesis
      by (simp add: word_less_nat_alt)
  qed
  have "fst ab0 < 65536" "snd ab0 < 65536"
    unfolding ab0_def m fst_conv snd_conv by (rule lt)+
  then have bd: "fst ab < 65536" "snd ab < 65536"
    using adler32_fold_bound [of ab0 a] by (simp_all add: ab_def)
  have e: "adler32 c a = push_bit 16 (of_nat (snd ab)) OR of_nat (fst ab)"
    by (simp add: adler32_def Let_def ab_def ab0_def)
  have "adler32 (push_bit 16 (of_nat (snd ab)) OR of_nat (fst ab)) b
      = push_bit 16 (of_nat (snd (foldl adler32_byte ab b))) OR of_nat (fst (foldl adler32_byte ab b))"
    unfolding adler32_def [of "push_bit 16 (of_nat (snd ab)) OR of_nat (fst ab)"] Let_def
      adler32_pack [OF bd] by simp
  also have "\<dots> = adler32 c (a @ b)"
    by (simp add: adler32_def Let_def ab_def ab0_def)
  finally show ?thesis
    by (simp add: e)
qed

lemma CHECK_chunks: "CHECK g (CHECK g c a) b = CHECK g c (a @ b)"
  by (simp add: CHECK_def crc32_chunks adler32_chunks)

subsection \<open>The calls of a compressor\<close>

lemma compress_loop_check:
  "compress_loop g xs (length xs) c strm = (next_in, len1, chk1, strm2) \<Longrightarrow>
   CHECK g chk1 (take len1 next_in) = CHECK g c xs"
proof (induction g xs "length xs" c strm arbitrary: next_in len1 chk1 strm2 rule: compress_loop.induct)
  case (1 g xs c strm)
  show ?case
  proof (cases "length xs > MAX_chunk")
    case True
    then have "compress_loop g (drop MAX_chunk xs) (length (drop MAX_chunk xs))
        (CHECK g c (take MAX_chunk xs)) (Deflate (take MAX_chunk xs) UINT_MAX Z_NO_FLUSH # strm)
      = (next_in, len1, chk1, strm2)"
      using "1.prems" by (subst (asm) compress_loop.simps) simp
    then have "CHECK g chk1 (take len1 next_in)
        = CHECK g (CHECK g c (take MAX_chunk xs)) (drop MAX_chunk xs)"
      using "1.hyps" [OF True] by simp
    then show ?thesis
      by (simp add: CHECK_chunks)
  next
    case False
    then have "(next_in, len1, chk1, strm2) = (xs, length xs, c, strm)"
      using "1.prems" by (subst (asm) compress_loop.simps) auto
    then show ?thesis
      by simp
  qed
qed

lemma compress_result_check: "fst (compress_result g d data) = CHECK g (CHECK_init g) data"
  by (simp add: compress_result_def Let_def split: prod.splits)
    (metis compress_loop_check)

lemma compress_loop_calls:
  "compress_loop g xs len c strm = (next_in, len1, chk1, strm2) \<Longrightarrow> no_flush_calls strm \<Longrightarrow>
   no_flush_calls strm2 \<and> (len \<le> MAX_chunk \<longrightarrow> strm2 = strm \<and> next_in = xs \<and> len1 = len)"
proof (induction g xs len c strm arbitrary: next_in len1 chk1 strm2 rule: compress_loop.induct)
  case (1 g xs len c strm)
  show ?case
  proof (cases "len > MAX_chunk")
    case True
    then have "compress_loop g (drop MAX_chunk xs) (len - MAX_chunk)
        (CHECK g c (take MAX_chunk xs)) (Deflate (take MAX_chunk xs) UINT_MAX Z_NO_FLUSH # strm)
      = (next_in, len1, chk1, strm2)"
      using "1.prems"(1) by (subst (asm) compress_loop.simps) simp
    then show ?thesis
      using "1.IH" [OF True] "1.prems"(2) True by simp
  next
    case False
    then have "(next_in, len1, chk1, strm2) = (xs, len, c, strm)"
      using "1.prems"(1) by (subst (asm) compress_loop.simps) auto
    then show ?thesis
      using "1.prems"(2) by simp
  qed
qed

lemma compress_result_calls:
  "\<exists>x h. snd (compress_result g d data)
      = Deflate x UINT_MAX (if length data < bsize g then Z_FINISH else Z_SYNC_FLUSH) # h
    \<and> no_flush_calls h"
proof -
  define strm1 where "strm1 = (if dict g \<and> d \<noteq> None \<and> length data \<noteq> 0
      then [SetDictionary (take DICT (drop (bsize g - DICT) (the d)))] else [])"
  obtain next_in len1 chk1 strm2
    where l: "compress_loop g data (length data) (CHECK_init g) strm1 = (next_in, len1, chk1, strm2)"
    by (metis prod_cases4)
  have "no_flush_calls strm1"
    by (simp add: strm1_def)
  then have "no_flush_calls strm2"
    using compress_loop_calls [OF l] by simp
  then show ?thesis
    unfolding compress_result_def Let_def strm1_def [symmetric] l by simp
qed

lemma compress_result_empty:
  "0 < bsize g \<Longrightarrow> snd (compress_result g d []) = [Deflate [] UINT_MAX Z_FINISH]"
  by (simp add: compress_result_def compress_loop.simps [of _ _ 0])

subsection \<open>Steps of the writer\<close>

lemma writer_step_cases:
  assumes "writer_step g ext s = Some s'"
  obtains
    (header) "w_pc s = W_header"
      "s' = s\<lparr>outd := outd s @ fst (put_header (ext_clock ext) g),
                w_head := snd (put_header (ext_clock ext) g),
                w_ulen := 0, w_clen := 0, w_check := CHECK_init g, w_n := 0, w_pc := W_wait\<rparr>"
  | (wait) "w_pc s = W_wait" "job_busy (jobs s (w_n s)) = COMP" "s' = s\<lparr>w_pc := W_join\<rparr>"
  | (join) "w_pc s = W_join" "job_comp (jobs s (w_n s)) = Finished"
      "s' = s\<lparr>jobs := (jobs s)(w_n s := (jobs s (w_n s))\<lparr>job_comp := NoThread\<rparr>), w_pc := W_setw\<rparr>"
  | (setw) "w_pc s = W_setw"
      "s' = s\<lparr>jobs := (jobs s)(w_n s := (jobs s (w_n s))\<lparr>job_busy := WRITE\<rparr>), w_pc := W_write\<rparr>"
  | (emit) "w_pc s = W_write"
      "s' = s\<lparr>outd := outd s @ z_written (ext_zlib ext) (level g) (job_strm (jobs s (w_n s))),
                w_len := job_len (jobs s (w_n s)),
                w_ulen := w_ulen s + of_nat (job_len (jobs s (w_n s))),
                w_clen := w_clen s
                  + of_nat (length (z_written (ext_zlib ext) (level g) (job_strm (jobs s (w_n s))))),
                w_check := COMB g (w_check s) (job_check (jobs s (w_n s))) (job_len (jobs s (w_n s))),
                w_pc := W_release\<rparr>"
  | (release) "w_pc s = W_release"
      "s' = s\<lparr>jobs := (jobs s)(w_n s := (jobs s (w_n s))\<lparr>job_busy := IDLE\<rparr>),
                w_n := NEXT g (w_n s),
                w_pc := (if w_len s = bsize g then W_wait else W_trailer)\<rparr>"
  | (trailer) "w_pc s = W_trailer"
      "s' = s\<lparr>outd := outd s
                  @ put_trailer (ext_clock ext) g (w_ulen s) (w_clen s) (w_check s) (w_head s),
                w_pc := W_done\<rparr>"
  using assms
  by (cases "w_pc s") (simp_all add: writer_step_def Let_def split: if_splits)

lemma writer_frame_reader:
  assumes "writer_step g ext s = Some s'"
  shows "r_pc s' = r_pc s" "r_n s' = r_n s" "ind s' = ind s" "r_got s' = r_got s"
    "job_buf (jobs s' j) = job_buf (jobs s j)" "job_len (jobs s' j) = job_len (jobs s j)"
    "job_check (jobs s' j) = job_check (jobs s j)" "job_strm (jobs s' j) = job_strm (jobs s j)"
  using assms by (cases rule: writer_step_cases; simp)+

lemma writer_inv_reader:
  assumes "pipeline_inv g ext inp rk wk ds s" "writer_step g ext s = Some s'"
  shows "inv_reader g inp rk s'"
proof (rule inv_reader_frame)
  show "inv_reader g inp rk s"
    using assms(1) by (simp add: pipeline_inv_def)
qed (rule writer_frame_reader [OF assms(2)])+

lemma flags_window:
  assumes "inv_flags g rk wk s" "wk \<le> i" "i < rk"
  shows "job_busy (jobs s (i mod procs g)) =
    (if i = wk \<and> w_pc s \<in> {W_write, W_release} then WRITE else COMP)"
  using assms unfolding inv_flags_def by blast

lemma flags_idle:
  assumes "inv_flags g rk wk s" "j < procs g" "\<And>i. wk \<le> i \<Longrightarrow> i < rk \<Longrightarrow> i mod procs g \<noteq> j"
  shows "job_busy (jobs s j) = IDLE"
  using assms unfolding inv_flags_def by blast

lemma flags_bounds:
  assumes "inv_flags g rk wk s"
  shows "wk \<le> rk" "rk \<le> wk + procs g"
  using assms unfolding inv_flags_def by blast+

lemma flags_reader:
  assumes "inv_flags g rk wk s"
  shows "r_pc s \<in> {R_wait2, R_read, R_wait3} \<Longrightarrow> job_busy (jobs s (r_n s)) \<noteq> COMP"
    "r_pc s \<in> {R_create, R_set} \<Longrightarrow> job_busy (jobs s (r_n s)) = IDLE"
    "r_pc s \<in> {R_create, R_set} \<Longrightarrow> rk < wk + procs g"
  using assms unfolding inv_flags_def by blast+

lemma inv_flagsI:
  assumes "wk \<le> rk" "rk \<le> wk + procs g"
    and "\<And>i. wk \<le> i \<Longrightarrow> i < rk \<Longrightarrow> job_busy (jobs s (i mod procs g)) =
          (if i = wk \<and> w_pc s \<in> {W_write, W_release} then WRITE else COMP)"
    and "\<And>j. j < procs g \<Longrightarrow> (\<forall>i. wk \<le> i \<and> i < rk \<longrightarrow> i mod procs g \<noteq> j) \<Longrightarrow>
          job_busy (jobs s j) = IDLE"
    and "r_pc s \<in> {R_wait2, R_read, R_wait3} \<Longrightarrow> job_busy (jobs s (r_n s)) \<noteq> COMP"
    and "r_pc s \<in> {R_create, R_set} \<Longrightarrow> job_busy (jobs s (r_n s)) = IDLE \<and> rk < wk + procs g"
    and "w_pc s \<in> {W_join, W_setw, W_write, W_release} \<Longrightarrow> wk < rk"
  shows "inv_flags g rk wk s"
  using assms unfolding inv_flags_def by blast

lemma writer_slot:
  assumes "inv_writer g ext inp wk ds s" "w_pc s \<in> {W_wait, W_join, W_setw, W_write, W_release}"
  shows "w_n s = wk mod procs g" "wk \<le> length inp div bsize g"
  using assms unfolding inv_writer_def by blast+

lemma window_other:
  assumes "inv_flags g rk wk s" "wk < i" "i < created rk s"
  shows "i mod procs g \<noteq> wk mod procs g"
proof
  assume "i mod procs g = wk mod procs g"
  then have "i = wk"
    using assms created_le(1) [OF assms(1)] by (intro mod_window_unique [of wk i "procs g" wk]) simp_all
  with assms(2) show False by simp
qed

lemma inv_flags_writer_frame:
  assumes F: "inv_flags g rk wk s"
    and busy: "\<And>j. job_busy (jobs s' j) = job_busy (jobs s j)"
    and r: "r_pc s' = r_pc s" "r_n s' = r_n s"
    and w: "(w_pc s' \<in> {W_write, W_release}) = (w_pc s \<in> {W_write, W_release})"
    and lt: "w_pc s' \<in> {W_join, W_setw, W_write, W_release} \<Longrightarrow> wk < rk"
  shows "inv_flags g rk wk s'"
proof (rule inv_flagsI)
  fix i assume "wk \<le> i" "i < rk"
  then show "job_busy (jobs s' (i mod procs g)) =
      (if i = wk \<and> w_pc s' \<in> {W_write, W_release} then WRITE else COMP)"
    using flags_window [OF F, of i] w by (simp add: busy)
next
  fix j assume "j < procs g" "\<forall>i. wk \<le> i \<and> i < rk \<longrightarrow> i mod procs g \<noteq> j"
  then show "job_busy (jobs s' j) = IDLE"
    using flags_idle [OF F, of j] by (simp add: busy)
next
  assume "r_pc s' \<in> {R_wait2, R_read, R_wait3}"
  then show "job_busy (jobs s' (r_n s')) \<noteq> COMP"
    using flags_reader(1) [OF F] by (simp add: busy r)
next
  assume "r_pc s' \<in> {R_create, R_set}"
  then show "job_busy (jobs s' (r_n s')) = IDLE \<and> rk < wk + procs g"
    using flags_reader(2,3) [OF F] by (simp add: busy r)
qed (use flags_bounds [OF F] lt in \<open>simp_all\<close>)

lemma writer_inv_flags:
  assumes inv: "pipeline_inv g ext inp rk wk ds s"
    and st: "writer_step g ext s = Some s'"
    and N: "0 < procs g"
  shows "inv_flags g rk (if w_pc s = W_release then Suc wk else wk) s'"
proof -
  have F: "inv_flags g rk wk s" and W: "inv_writer g ext inp wk ds s"
    using inv by (simp_all add: pipeline_inv_def)
  note rf = writer_frame_reader [OF st]
  note b = flags_bounds [OF F]
  from st show ?thesis
  proof (cases rule: writer_step_cases)
    case header
    have "inv_flags g rk wk s'"
      by (rule inv_flags_writer_frame [OF F]) (simp_all add: header)
    with header show ?thesis by simp
  next
    case wait
    have n: "w_n s = wk mod procs g"
      using writer_slot [OF W] wait by simp
    have lt: "wk < rk"
    proof (rule ccontr)
      assume "\<not> wk < rk"
      then have "job_busy (jobs s (wk mod procs g)) = IDLE"
        using flags_idle [OF F, of "wk mod procs g"] N by simp
      with wait n show False by simp
    qed
    have "inv_flags g rk wk s'"
      by (rule inv_flags_writer_frame [OF F]) (simp_all add: wait lt)
    with wait show ?thesis by simp
  next
    case join
    have lt: "wk < rk"
      using window_nonempty [OF F] join by simp
    have "inv_flags g rk wk s'"
      by (rule inv_flags_writer_frame [OF F]) (simp_all add: join lt)
    with join show ?thesis by simp
  next
    case setw
    have n: "w_n s = wk mod procs g"
      using writer_slot [OF W] setw by simp
    have lt: "wk < rk"
      using window_nonempty [OF F] setw by simp
    have comp: "job_busy (jobs s (w_n s)) = COMP"
      using flags_window [OF F, of wk] lt setw n by simp
    have other: "i mod procs g \<noteq> w_n s" if "wk < i" "i < rk" for i
      using window_other [OF F that(1)] that(2) created_le(2) [OF F] n by simp
    have busy': "job_busy (jobs s' j) = (if j = w_n s then WRITE else job_busy (jobs s j))" for j
      by (simp add: setw)
    have "inv_flags g rk wk s'"
    proof (rule inv_flagsI)
      fix i assume i: "wk \<le> i" "i < rk"
      show "job_busy (jobs s' (i mod procs g)) =
          (if i = wk \<and> w_pc s' \<in> {W_write, W_release} then WRITE else COMP)"
      proof (cases "i = wk")
        case True
        then show ?thesis by (simp add: busy' n) (simp add: setw)
      next
        case False
        with i other [of i] flags_window [OF F i] show ?thesis
          by (simp add: busy')
      qed
    next
      fix j assume j: "j < procs g" "\<forall>i. wk \<le> i \<and> i < rk \<longrightarrow> i mod procs g \<noteq> j"
      then have "j \<noteq> w_n s"
        using lt n by auto
      then show "job_busy (jobs s' j) = IDLE"
        using flags_idle [OF F j(1)] j(2) by (simp add: busy')
    next
      assume "r_pc s' \<in> {R_wait2, R_read, R_wait3}"
      then show "job_busy (jobs s' (r_n s')) \<noteq> COMP"
        using flags_reader(1) [OF F] by (simp add: busy' rf)
    next
      assume "r_pc s' \<in> {R_create, R_set}"
      then have r: "r_pc s \<in> {R_create, R_set}"
        by (simp add: rf)
      then have "r_n s \<noteq> w_n s"
        using flags_reader(2) [OF F r] comp by auto
      then show "job_busy (jobs s' (r_n s')) = IDLE \<and> rk < wk + procs g"
        using flags_reader(2,3) [OF F r] by (simp add: busy' rf)
    qed (use b lt in \<open>simp_all\<close>)
    with setw show ?thesis by simp
  next
    case emit
    have lt: "wk < rk"
      using window_nonempty [OF F] emit by simp
    have "inv_flags g rk wk s'"
      by (rule inv_flags_writer_frame [OF F]) (simp_all add: emit lt)
    with emit show ?thesis by simp
  next
    case release
    have n: "w_n s = wk mod procs g"
      using writer_slot [OF W] release by simp
    have lt: "wk < rk"
      using window_nonempty [OF F] release by simp
    have other: "i mod procs g \<noteq> w_n s" if "wk < i" "i < rk" for i
      using window_other [OF F that(1)] that(2) created_le(2) [OF F] n by simp
    have pc': "w_pc s' \<in> {W_wait, W_trailer}"
      by (simp add: release)
    have busy': "job_busy (jobs s' j) = (if j = w_n s then IDLE else job_busy (jobs s j))" for j
      by (simp add: release)
    have "inv_flags g rk (Suc wk) s'"
    proof (rule inv_flagsI)
      fix i assume i: "Suc wk \<le> i" "i < rk"
      then have "job_busy (jobs s (i mod procs g)) = COMP"
        using flags_window [OF F, of i] by simp
      then show "job_busy (jobs s' (i mod procs g)) =
          (if i = Suc wk \<and> w_pc s' \<in> {W_write, W_release} then WRITE else COMP)"
        using other [of i] i pc' by (auto simp add: busy')
    next
      fix j assume j: "j < procs g" "\<forall>i. Suc wk \<le> i \<and> i < rk \<longrightarrow> i mod procs g \<noteq> j"
      show "job_busy (jobs s' j) = IDLE"
      proof (cases "j = w_n s")
        case True
        then show ?thesis by (simp add: busy')
      next
        case False
        have "i mod procs g \<noteq> j" if "wk \<le> i" "i < rk" for i
          using that j(2) False n by (cases "i = wk") auto
        then show ?thesis
          using flags_idle [OF F j(1)] False by (simp add: busy')
      qed
    next
      assume "r_pc s' \<in> {R_wait2, R_read, R_wait3}"
      then show "job_busy (jobs s' (r_n s')) \<noteq> COMP"
        using flags_reader(1) [OF F] by (simp add: busy' rf)
    next
      assume "r_pc s' \<in> {R_create, R_set}"
      then show "job_busy (jobs s' (r_n s')) = IDLE \<and> rk < Suc wk + procs g"
        using flags_reader(2,3) [OF F] by (auto simp add: busy' rf)
    next
      assume "w_pc s' \<in> {W_join, W_setw, W_write, W_release}"
      with pc' show "Suc wk < rk" by auto
    qed (use b lt in \<open>simp_all\<close>)
    with release show ?thesis by simp
  next
    case trailer
    have "inv_flags g rk wk s'"
      by (rule inv_flags_writer_frame [OF F]) (simp_all add: trailer)
    with trailer show ?thesis by simp
  qed
qed

lemma inv_threads_frame2:
  assumes T: "inv_threads g inp rk wk ds s"
    and comp: "\<And>j. job_comp (jobs s' j) = job_comp (jobs s j)"
    and todo: "\<And>j dat. job_todo dat (jobs s' j) = job_todo dat (jobs s j)"
    and fin: "\<And>j d dat. job_done g d dat (jobs s' j) = job_done g d dat (jobs s j)"
    and c: "created rk' s' = created rk s"
    and j: "joined wk' s' = joined wk s"
    and w: "w_pc s' \<in> {W_setw, W_write} \<Longrightarrow> wk' = wk \<and> w_pc s \<in> {W_setw, W_write}"
  shows "inv_threads g inp rk' wk' ds s'"
proof (rule inv_threadsI)
  fix i assume "joined wk' s' \<le> i" "i < created rk' s'"
  then show "(job_comp (jobs s' (i mod procs g)) = Running \<and>
           job_todo (block (bsize g) inp i) (jobs s' (i mod procs g)))
        \<or> (job_comp (jobs s' (i mod procs g)) = Finished \<and>
           job_done g (ds i) (block (bsize g) inp i) (jobs s' (i mod procs g)))"
    using threads_window [OF T, of i] by (simp add: comp todo fin c j)
next
  assume "w_pc s' \<in> {W_setw, W_write}"
  then show "job_done g (ds wk') (block (bsize g) inp wk') (jobs s' (wk' mod procs g))"
    using threads_joined [OF T] w by (simp add: fin)
next
  fix n assume "n < procs g" "\<forall>i. joined wk' s' \<le> i \<and> i < created rk' s' \<longrightarrow> i mod procs g \<noteq> n"
  then show "job_comp (jobs s' n) = NoThread"
    using threads_none [OF T, of n] by (simp add: comp c j)
qed

lemma writer_inv_threads:
  assumes inv: "pipeline_inv g ext inp rk wk ds s"
    and st: "writer_step g ext s = Some s'"
    and N: "0 < procs g"
  shows "inv_threads g inp rk (if w_pc s = W_release then Suc wk else wk) ds s'"
proof -
  have F: "inv_flags g rk wk s" and W: "inv_writer g ext inp wk ds s"
    and T: "inv_threads g inp rk wk ds s"
    using inv by (simp_all add: pipeline_inv_def)
  note rf = writer_frame_reader [OF st]
  have c': "created rk s' = created rk s"
    by (simp add: created_def rf)
  from st show ?thesis
  proof (cases rule: writer_step_cases)
    case header
    have "inv_threads g inp rk wk ds s'"
      by (rule inv_threads_frame2 [OF T]) (simp_all add: header created_def joined_def)
    with header show ?thesis by simp
  next
    case wait
    have "inv_threads g inp rk wk ds s'"
      by (rule inv_threads_frame2 [OF T]) (simp_all add: wait created_def joined_def)
    with wait show ?thesis by simp
  next
    case setw
    have "inv_threads g inp rk wk ds s'"
      by (rule inv_threads_frame2 [OF T])
        (simp_all add: setw created_def joined_def job_todo_def job_done_def)
    with setw show ?thesis by simp
  next
    case emit
    have "inv_threads g inp rk wk ds s'"
      by (rule inv_threads_frame2 [OF T]) (simp_all add: emit created_def joined_def)
    with emit show ?thesis by simp
  next
    case trailer
    have "inv_threads g inp rk wk ds s'"
      by (rule inv_threads_frame2 [OF T]) (simp_all add: trailer created_def joined_def)
    with trailer show ?thesis by simp
  next
    case release
    have "inv_threads g inp rk (Suc wk) ds s'"
      by (rule inv_threads_frame2 [OF T])
        (auto simp add: release created_def joined_def job_todo_def job_done_def split: if_splits)
    with release show ?thesis by simp
  next
    case join
    have n: "w_n s = wk mod procs g"
      using writer_slot [OF W] join by simp
    have lt: "wk < rk"
      using window_nonempty [OF F] join by simp
    have j: "joined wk s = wk" "joined wk s' = Suc wk"
      by (simp_all add: joined_def join)
    have other: "jobs s' k = jobs s k" if "k \<noteq> w_n s" for k
      using that by (simp add: join)
    have "job_done g (ds wk) (block (bsize g) inp wk) (jobs s (wk mod procs g))"
      using threads_window [OF T, of wk] lt created_le(2) [OF F] join(2) by (simp add: j n)
    then have dn: "job_done g (ds wk) (block (bsize g) inp wk) (jobs s' (wk mod procs g))"
      by (simp add: join n job_done_def)
    have "inv_threads g inp rk wk ds s'"
    proof (rule inv_threadsI)
      fix i assume i: "joined wk s' \<le> i" "i < created rk s'"
      then have "i mod procs g \<noteq> w_n s"
        using window_other [OF F, of i] by (simp add: j c' n)
      then show "(job_comp (jobs s' (i mod procs g)) = Running \<and>
           job_todo (block (bsize g) inp i) (jobs s' (i mod procs g)))
        \<or> (job_comp (jobs s' (i mod procs g)) = Finished \<and>
           job_done g (ds i) (block (bsize g) inp i) (jobs s' (i mod procs g)))"
        using threads_window [OF T, of i] i by (simp add: j c' other)
    next
      show "job_done g (ds wk) (block (bsize g) inp wk) (jobs s' (wk mod procs g))"
        by (rule dn)
    next
      fix k assume k: "k < procs g" "\<forall>i. joined wk s' \<le> i \<and> i < created rk s' \<longrightarrow> i mod procs g \<noteq> k"
      show "job_comp (jobs s' k) = NoThread"
      proof (cases "k = w_n s")
        case True
        then show ?thesis by (simp add: join)
      next
        case False
        have "i mod procs g \<noteq> k" if "joined wk s \<le> i" "i < created rk s" for i
          using that k(2) False n by (cases "i = wk") (auto simp add: j c')
        then show ?thesis
          using threads_none [OF T k(1)] False by (simp add: other)
      qed
    qed
    with join show ?thesis by simp
  qed
qed

lemma check_fold_Suc:
  "check_fold g inp (Suc k) = COMB g (check_fold g inp k)
     (CHECK g (CHECK_init g) (block (bsize g) inp k)) (length (block (bsize g) inp k))"
  by (simp add: check_fold_def)

lemma inv_writerI:
  assumes "w_pc s = W_header \<Longrightarrow> wk = 0 \<and> outd s = []"
    and "w_pc s \<in> {W_wait, W_join, W_setw, W_write, W_release} \<Longrightarrow>
        wk \<le> length inp div bsize g \<and> w_n s = wk mod procs g"
    and "w_pc s \<in> {W_trailer, W_done} \<Longrightarrow> wk = length inp div bsize g + 1"
    and "w_pc s = W_release \<Longrightarrow> w_len s = length (block (bsize g) inp wk)"
    and "w_pc s \<noteq> W_header \<Longrightarrow>
        w_head s = snd (put_header (ext_clock ext) g) \<and>
        w_ulen s = of_nat (sum_list (map (\<lambda>i. length (block (bsize g) inp i)) [0..<written wk s])) \<and>
        w_clen s = of_nat (sum_list (map (\<lambda>i. length (block_out g ext inp ds i)) [0..<written wk s])) \<and>
        w_check s = check_fold g inp (written wk s) \<and>
        outd s = fst (put_header (ext_clock ext) g)
                   @ concat (map (block_out g ext inp ds) [0..<written wk s])
                   @ (if w_pc s = W_done
                      then put_trailer (ext_clock ext) g (w_ulen s) (w_clen s) (w_check s) (w_head s)
                      else [])"
  shows "inv_writer g ext inp wk ds s"
  using assms unfolding inv_writer_def by blast

lemma writer_acc:
  assumes "inv_writer g ext inp wk ds s" "w_pc s \<noteq> W_header"
  shows "w_head s = snd (put_header (ext_clock ext) g)"
    "w_ulen s = of_nat (sum_list (map (\<lambda>i. length (block (bsize g) inp i)) [0..<written wk s]))"
    "w_clen s = of_nat (sum_list (map (\<lambda>i. length (block_out g ext inp ds i)) [0..<written wk s]))"
    "w_check s = check_fold g inp (written wk s)"
    "outd s = fst (put_header (ext_clock ext) g)
               @ concat (map (block_out g ext inp ds) [0..<written wk s])
               @ (if w_pc s = W_done
                  then put_trailer (ext_clock ext) g (w_ulen s) (w_clen s) (w_check s) (w_head s)
                  else [])"
  using assms unfolding inv_writer_def by blast+

lemma writer_misc:
  assumes "inv_writer g ext inp wk ds s"
  shows "w_pc s = W_header \<Longrightarrow> wk = 0 \<and> outd s = []"
    "w_pc s = W_release \<Longrightarrow> w_len s = length (block (bsize g) inp wk)"
    "w_pc s \<in> {W_trailer, W_done} \<Longrightarrow> wk = length inp div bsize g + 1"
  using assms unfolding inv_writer_def by blast+

lemma writer_inv_writer:
  assumes inv: "pipeline_inv g ext inp rk wk ds s"
    and st: "writer_step g ext s = Some s'"
    and S: "0 < bsize g" and N: "0 < procs g"
  shows "inv_writer g ext inp (if w_pc s = W_release then Suc wk else wk) ds s'"
proof -
  have W: "inv_writer g ext inp wk ds s" and T: "inv_threads g inp rk wk ds s"
    using inv by (simp_all add: pipeline_inv_def)
  from st show ?thesis
  proof (cases rule: writer_step_cases)
    case header
    have "inv_writer g ext inp wk ds s'"
      using writer_misc(1) [OF W header(1)]
      by (intro inv_writerI) (simp_all add: header written_def check_fold_def)
    with header show ?thesis by simp
  next
    case wait
    have "inv_writer g ext inp wk ds s'"
      using writer_slot [OF W] writer_acc [OF W] wait(1)
      by (intro inv_writerI) (simp_all add: wait written_def)
    with wait show ?thesis by simp
  next
    case join
    have "inv_writer g ext inp wk ds s'"
      using writer_slot [OF W] writer_acc [OF W] join(1)
      by (intro inv_writerI) (simp_all add: join written_def)
    with join show ?thesis by simp
  next
    case setw
    have "inv_writer g ext inp wk ds s'"
      using writer_slot [OF W] writer_acc [OF W] setw(1)
      by (intro inv_writerI) (simp_all add: setw written_def)
    with setw show ?thesis by simp
  next
    case emit
    have n: "w_n s = wk mod procs g" and wk: "wk \<le> length inp div bsize g"
      using writer_slot [OF W] emit by simp_all
    have d: "job_done g (ds wk) (block (bsize g) inp wk) (jobs s (w_n s))"
      using threads_joined [OF T] emit n by simp
    then have len: "job_len (jobs s (w_n s)) = length (block (bsize g) inp wk)"
      and chk: "job_check (jobs s (w_n s)) = CHECK g (CHECK_init g) (block (bsize g) inp wk)"
      and out: "z_written (ext_zlib ext) (level g) (job_strm (jobs s (w_n s))) = block_out g ext inp ds wk"
      using compress_result_check [of g "ds wk" "block (bsize g) inp wk"]
      by (auto simp add: job_done_def block_out_def dest: arg_cong [where f = fst] arg_cong [where f = snd])
    have w: "written wk s = wk" "written wk s' = Suc wk"
      by (simp_all add: written_def emit)
    note acc = writer_acc [OF W, unfolded w]
    have "inv_writer g ext inp wk ds s'"
    proof (rule inv_writerI)
      assume "w_pc s' \<noteq> W_header"
      show "w_head s' = snd (put_header (ext_clock ext) g) \<and>
        w_ulen s' = of_nat (sum_list (map (\<lambda>i. length (block (bsize g) inp i)) [0..<written wk s'])) \<and>
        w_clen s' = of_nat (sum_list (map (\<lambda>i. length (block_out g ext inp ds i)) [0..<written wk s'])) \<and>
        w_check s' = check_fold g inp (written wk s') \<and>
        outd s' = fst (put_header (ext_clock ext) g)
                   @ concat (map (block_out g ext inp ds) [0..<written wk s'])
                   @ (if w_pc s' = W_done
                      then put_trailer (ext_clock ext) g (w_ulen s') (w_clen s') (w_check s') (w_head s')
                      else [])"
        unfolding w using acc emit(1) by (simp add: emit(2) len chk out check_fold_Suc)
    qed (use n wk len in \<open>simp_all add: emit\<close>)
    with emit show ?thesis by simp
  next
    case release
    have n: "w_n s = wk mod procs g" and wk: "wk \<le> length inp div bsize g"
      using writer_slot [OF W] release by simp_all
    have len: "w_len s = length (block (bsize g) inp wk)"
      using writer_misc(2) [OF W release(1)] .
    have w: "written wk s = Suc wk" "written (Suc wk) s' = Suc wk"
      by (simp_all add: written_def release)
    note acc = writer_acc [OF W, unfolded w]
    have "inv_writer g ext inp (Suc wk) ds s'"
    proof (rule inv_writerI)
      assume "w_pc s' \<in> {W_wait, W_join, W_setw, W_write, W_release}"
      then have "w_len s = bsize g"
        by (simp add: release split: if_splits)
      then have "wk < length inp div bsize g"
        using block_short_iff [OF S wk] len by simp
      then show "Suc wk \<le> length inp div bsize g \<and> w_n s' = Suc wk mod procs g"
        by (simp add: release n NEXT_mod [OF N])
    next
      assume "w_pc s' \<in> {W_trailer, W_done}"
      then have "w_len s \<noteq> bsize g"
        by (simp add: release split: if_splits)
      then have "wk = length inp div bsize g"
        using block_short_iff [OF S wk] len wk by simp
      then show "Suc wk = length inp div bsize g + 1"
        by simp
    next
      assume "w_pc s' \<noteq> W_header"
      show "w_head s' = snd (put_header (ext_clock ext) g) \<and>
        w_ulen s' = of_nat (sum_list (map (\<lambda>i. length (block (bsize g) inp i)) [0..<written (Suc wk) s'])) \<and>
        w_clen s' = of_nat (sum_list (map (\<lambda>i. length (block_out g ext inp ds i)) [0..<written (Suc wk) s'])) \<and>
        w_check s' = check_fold g inp (written (Suc wk) s') \<and>
        outd s' = fst (put_header (ext_clock ext) g)
                   @ concat (map (block_out g ext inp ds) [0..<written (Suc wk) s'])
                   @ (if w_pc s' = W_done
                      then put_trailer (ext_clock ext) g (w_ulen s') (w_clen s') (w_check s') (w_head s')
                      else [])"
        unfolding w using acc release(1) by (simp add: release(2))
    qed (auto simp add: release split: if_splits)
    with release show ?thesis by simp
  next
    case trailer
    have "inv_writer g ext inp wk ds s'"
      using writer_misc(3) [OF W] writer_acc [OF W] trailer(1)
      by (intro inv_writerI) (simp_all add: trailer written_def)
    with trailer show ?thesis by simp
  qed
qed

lemma writer_step_inv:
  assumes "pipeline_inv g ext inp rk wk ds s" "writer_step g ext s = Some s'"
    "0 < bsize g" "0 < procs g"
  shows "\<exists>wk'. pipeline_inv g ext inp rk wk' ds s'"
  using writer_inv_reader [OF assms(1,2)] writer_inv_flags [OF assms(1,2,4)]
    writer_inv_threads [OF assms(1,2,4)] writer_inv_writer [OF assms]
  unfolding pipeline_inv_def by blast

lemma step_inv:
  assumes "pipeline_inv g ext inp rk wk ds s" "step g ext s s'" "0 < bsize g" "0 < procs g"
  shows "\<exists>rk' wk' ds'. pipeline_inv g ext inp rk' wk' ds' s'"
proof -
  obtain t where t: "thread_step g ext t s = Some s'"
    using assms(2) by (auto simp add: step_def)
  show ?thesis
  proof (cases t)
    case Reader
    then show ?thesis
      using reader_step_inv [OF assms(1) _ assms(3,4), of s'] t
      by (simp add: thread_step_def) blast
  next
    case Writer
    then show ?thesis
      using writer_step_inv [OF assms(1) _ assms(3,4), of s'] t
      by (simp add: thread_step_def) blast
  next
    case (Compressor n)
    then show ?thesis
      using compress_step_inv [OF assms(1) _ assms(4), of n s'] t
      by (simp add: thread_step_def) blast
  qed
qed

lemma reach_inv:
  assumes "reach g ext (read_thread_init js inp) s" "pool_idle g js" "0 < bsize g" "0 < procs g"
  shows "\<exists>rk wk ds. pipeline_inv g ext inp rk wk ds s"
  using assms(1)
proof (induction rule: reach.induct)
  case reach_init
  show ?case
    using pipeline_inv_init [OF assms(2,4)] by blast
next
  case (reach_step s s')
  then show ?case
    using step_inv [OF _ _ assms(3,4)] by blast
qed

subsection \<open>The finished stream\<close>

lemma run_reach: "run g ext sched s0 = Some s \<Longrightarrow> reach g ext s1 s0 \<Longrightarrow> reach g ext s1 s"
proof (induction sched arbitrary: s0)
  case Nil
  then show ?case by simp
next
  case (Cons t ts)
  from Cons.prems(1) obtain s' where s': "thread_step g ext t s0 = Some s'" "run g ext ts s' = Some s"
    by (auto split: option.splits)
  then have "step g ext s0 s'"
    by (auto simp add: step_def)
  then have "reach g ext s1 s'"
    using Cons.prems(2) by (rule reach_step [rotated])
  then show ?case
    using Cons.IH [OF s'(2)] by simp
qed

lemma concat_blocks: "concat (map (block S inp) [0..<k]) = take (k * S) inp"
proof (induction k)
  case 0
  show ?case by simp
next
  case (Suc k)
  have "take (k * S) inp @ take S (drop (k * S) inp) = take (k * S + S) inp"
    by (simp add: take_add)
  with Suc show ?case
    by (simp add: block_def add.commute)
qed

lemma concat_all_blocks:
  assumes "0 < S"
  shows "concat (map (block S inp) [0..<nblocks S inp]) = inp"
proof -
  have "length inp < (length inp div S + 1) * S"
    using assms by (simp add: dividend_less_div_times add.commute)
  then show ?thesis
    unfolding concat_blocks nblocks_def by simp
qed

lemma sum_block_lengths:
  assumes "0 < S"
  shows "sum_list (map (\<lambda>i. length (block S inp i)) [0..<nblocks S inp]) = length inp"
proof -
  have "sum_list (map length (map (block S inp) [0..<nblocks S inp])) = length inp"
    using concat_all_blocks [OF assms, of inp] by (metis length_concat)
  then show ?thesis
    by (simp add: comp_def)
qed

lemma check_fold_blocks:
  "check_fold g inp k =
     foldl (\<lambda>c b. COMB g c (CHECK g (CHECK_init g) b) (length b)) (CHECK_init g)
       (map (block (bsize g) inp) [0..<k])"
  by (simp add: check_fold_def foldl_map)

lemma finished_stream:
  assumes "reach g ext (read_thread_init js inp) s" "pool_idle g js" "0 < bsize g" "0 < procs g"
    and "w_pc s = W_done"
  shows "\<exists>ds. outd s = fst (put_header (ext_clock ext) g)
           @ concat (map (block_out g ext inp ds) [0..<nblocks (bsize g) inp])
           @ put_trailer (ext_clock ext) g (w_ulen s) (w_clen s) (w_check s)
               (snd (put_header (ext_clock ext) g))
       \<and> w_ulen s = of_nat (length inp)
       \<and> w_clen s = of_nat (sum_list (map (\<lambda>i. length (block_out g ext inp ds i))
                                  [0..<nblocks (bsize g) inp]))
       \<and> w_check s = check_fold g inp (nblocks (bsize g) inp)"
proof -
  obtain rk wk ds where "pipeline_inv g ext inp rk wk ds s"
    using reach_inv [OF assms(1-4)] by blast
  then have W: "inv_writer g ext inp wk ds s"
    by (simp add: pipeline_inv_def)
  have wk: "wk = nblocks (bsize g) inp"
    using writer_misc(3) [OF W] assms(5) by (simp add: nblocks_def)
  have w: "written wk s = nblocks (bsize g) inp"
    using assms(5) by (simp add: written_def wk)
  show ?thesis
    using writer_acc [OF W, unfolded w] assms(5)
    by (intro exI [of _ ds]) (simp add: sum_block_lengths [OF assms(3)])
qed

lemmas small_defs = small_config_def small_extern_def defaults_def
  read_thread_init_def jobs_new_def thread_step_def reader_step_def writer_step_def
  compress_step_def compress_thread_def job_init_def NEXT_def PREV_def Let_def
  compress_loop.simps MAX_chunk_def block_schedule_def small_schedule_def

lemma small_run:
  "\<exists>s. run small_config small_extern small_schedule (read_thread_init jobs_new [1, 2, 3]) = Some s
     \<and> w_pc s = W_done \<and> r_pc s = R_done"
  by (simp add: small_defs)

lemma small_pool: "pool_idle small_config jobs_new"
  by (simp add: pool_idle_def jobs_new_def)

lemma small_sizes: "1 < procs small_config" "0 < bsize small_config"
  by (simp_all add: small_config_def)

lemma blocks_short_last:
  assumes "0 < S" "i < nblocks S inp"
  shows "(length (block S inp i) < S) = (i = nblocks S inp - 1)"
proof -
  have i: "i \<le> length inp div S"
    using assms(2) by (simp add: nblocks_def)
  have "length (block S inp i) \<le> S"
    by (simp add: length_block)
  then have "(length (block S inp i) < S) = (length (block S inp i) \<noteq> S)"
    by auto
  then show ?thesis
    using block_short_iff [OF assms(1) i] i by (auto simp add: nblocks_def)
qed

text \<open>
  C1. With more than one worker, when the writer has finished it has written the container
  header, then for each block of the input in input order what that block's compressor
  wrote, then the container trailer; the blocks are the consecutive pieces of the input of
  \<open>S\<close> bytes up to and including the first shorter one; the check in the trailer is the
  format's seed folded with \<open>COMB\<close> over the blocks' check values and lengths in that
  order, and the totals are the sums of the blocks' input and output lengths.
\<close>

theorem write_thread_output:
  assumes "1 < procs g" "0 < bsize g" "pool_idle g js"
    and "reach g ext (read_thread_init js inp) s" and "w_pc s = W_done"
  shows "\<exists>ds. concat (map (block (bsize g) inp) [0..<nblocks (bsize g) inp]) = inp
    \<and> (\<forall>i < nblocks (bsize g) inp.
          (length (block (bsize g) inp i) < bsize g) = (i = nblocks (bsize g) inp - 1))
    \<and> outd s = fst (put_header (ext_clock ext) g)
         @ concat (map (block_out g ext inp ds) [0..<nblocks (bsize g) inp])
         @ put_trailer (ext_clock ext) g (w_ulen s) (w_clen s) (w_check s)
             (snd (put_header (ext_clock ext) g))
    \<and> w_check s =
         foldl (\<lambda>c b. COMB g c (CHECK g (CHECK_init g) b) (length b)) (CHECK_init g)
           (map (block (bsize g) inp) [0..<nblocks (bsize g) inp])
    \<and> w_ulen s = of_nat (sum_list (map (\<lambda>i. length (block (bsize g) inp i))
                               [0..<nblocks (bsize g) inp]))
    \<and> w_clen s = of_nat (sum_list (map (\<lambda>i. length (block_out g ext inp ds i))
                               [0..<nblocks (bsize g) inp]))"
proof -
  have N: "0 < procs g"
    using assms(1) by simp
  obtain ds where ds: "outd s = fst (put_header (ext_clock ext) g)
           @ concat (map (block_out g ext inp ds) [0..<nblocks (bsize g) inp])
           @ put_trailer (ext_clock ext) g (w_ulen s) (w_clen s) (w_check s)
               (snd (put_header (ext_clock ext) g))"
      "w_ulen s = of_nat (length inp)"
      "w_clen s = of_nat (sum_list (map (\<lambda>i. length (block_out g ext inp ds i))
                                  [0..<nblocks (bsize g) inp]))"
      "w_check s = check_fold g inp (nblocks (bsize g) inp)"
    using finished_stream [OF assms(4,3,2) N assms(5)] by blast
  show ?thesis
    using ds concat_all_blocks [OF assms(2), of inp] blocks_short_last [OF assms(2), of _ inp]
    by (intro exI [of _ ds]) (simp add: check_fold_blocks sum_block_lengths [OF assms(2)])
qed

theorem write_thread_output_witness:
  "\<exists>s ds. run small_config small_extern small_schedule (read_thread_init jobs_new [1, 2, 3]) = Some s
     \<and> w_pc s = W_done
     \<and> outd s = fst (put_header epoch_clock small_config)
         @ concat (map (block_out small_config small_extern [1, 2, 3] ds) [0..<2])
         @ put_trailer epoch_clock small_config (w_ulen s) (w_clen s) (w_check s)
             (snd (put_header epoch_clock small_config))"
proof -
  obtain s where s: "run small_config small_extern small_schedule (read_thread_init jobs_new [1, 2, 3]) = Some s"
    "w_pc s = W_done"
    using small_run by blast
  have r: "reach small_config small_extern (read_thread_init jobs_new [1, 2, 3]) s"
    using run_reach [OF s(1) reach_init] .
  have n: "nblocks (bsize small_config) [1, 2, 3 :: byte] = 2"
    by (simp add: nblocks_def small_config_def)
  have c: "ext_clock small_extern = epoch_clock"
    by (simp add: small_extern_def)
  show ?thesis
    using write_thread_output [OF small_sizes small_pool r s(2)] s unfolding n c by blast
qed

lemma compress_thread_calls:
  "\<exists>x h. job_strm (compress_thread g js n)
      = Deflate x UINT_MAX (if job_len (js n) < bsize g then Z_FINISH else Z_SYNC_FLUSH) # h
    \<and> no_flush_calls h"
proof -
  define strm1 where "strm1 = (if dict g \<and> job_buf (js (PREV g n)) \<noteq> None \<and> job_len (js n) \<noteq> 0
      then [SetDictionary (take DICT (drop (bsize g - DICT) (the (job_buf (js (PREV g n))))))] else [])"
  obtain next_in len1 chk1 strm2
    where l: "compress_loop g (take (job_len (js n)) (the (job_buf (js n)))) (job_len (js n))
        (CHECK_init g) strm1 = (next_in, len1, chk1, strm2)"
    by (metis prod_cases4)
  have "no_flush_calls strm1"
    by (simp add: strm1_def)
  then have "no_flush_calls strm2"
    using compress_loop_calls [OF l] by simp
  then show ?thesis
    unfolding compress_thread_def Let_def strm1_def [symmetric] l by simp
qed

text \<open>
  C4. The last deflate call of a compressor is a finish when the length of its block is
  less than the block size and a sync-flush otherwise, and the calls before it do not
  flush. So in the finished stream, whose blocks all have the block size except the last,
  which is shorter, every block but the last ends with a sync-flush and the last with a
  finish.
\<close>

theorem compress_thread_flush:
  assumes "1 < procs g" "0 < bsize g" "pool_idle g js"
    and "reach g ext (read_thread_init js inp) s" and "w_pc s = W_done"
  shows "(\<exists>x h. job_strm (compress_thread g js' n)
            = Deflate x UINT_MAX (if job_len (js' n) < bsize g then Z_FINISH else Z_SYNC_FLUSH) # h
          \<and> no_flush_calls h)
    \<and> (\<exists>hs. length hs = nblocks (bsize g) inp
          \<and> outd s = fst (put_header (ext_clock ext) g)
               @ concat (map (z_written (ext_zlib ext) (level g)) hs)
               @ put_trailer (ext_clock ext) g (w_ulen s) (w_clen s) (w_check s)
                   (snd (put_header (ext_clock ext) g))
          \<and> (\<forall>i < nblocks (bsize g) inp.
                (length (block (bsize g) inp i) < bsize g) = (i = nblocks (bsize g) inp - 1)
                \<and> (\<exists>x h. hs ! i = Deflate x UINT_MAX
                        (if i = nblocks (bsize g) inp - 1 then Z_FINISH else Z_SYNC_FLUSH) # h
                      \<and> no_flush_calls h)))"
proof -
  have N: "0 < procs g"
    using assms(1) by simp
  obtain ds where ds: "outd s = fst (put_header (ext_clock ext) g)
           @ concat (map (block_out g ext inp ds) [0..<nblocks (bsize g) inp])
           @ put_trailer (ext_clock ext) g (w_ulen s) (w_clen s) (w_check s)
               (snd (put_header (ext_clock ext) g))"
    using finished_stream [OF assms(4,3,2) N assms(5)] by blast
  define hs where "hs = map (\<lambda>i. snd (compress_result g (ds i) (block (bsize g) inp i)))
    [0..<nblocks (bsize g) inp]"
  have len: "length hs = nblocks (bsize g) inp"
    by (simp add: hs_def)
  have out: "map (z_written (ext_zlib ext) (level g)) hs
      = map (block_out g ext inp ds) [0..<nblocks (bsize g) inp]"
    by (simp add: hs_def block_out_def)
  have each: "(length (block (bsize g) inp i) < bsize g) = (i = nblocks (bsize g) inp - 1)
      \<and> (\<exists>x h. hs ! i = Deflate x UINT_MAX
              (if i = nblocks (bsize g) inp - 1 then Z_FINISH else Z_SYNC_FLUSH) # h
            \<and> no_flush_calls h)"
    if "i < nblocks (bsize g) inp" for i
    using compress_result_calls [of g "ds i" "block (bsize g) inp i"]
      blocks_short_last [OF assms(2) that] that
    by (simp add: hs_def)
  show ?thesis
    using compress_thread_calls [of g js' n] len ds each unfolding out [symmetric] by blast
qed

theorem compress_thread_flush_witness:
  "\<exists>s hs. run small_config small_extern small_schedule (read_thread_init jobs_new [1, 2, 3]) = Some s
     \<and> w_pc s = W_done \<and> length hs = 2
     \<and> outd s = fst (put_header epoch_clock small_config)
          @ concat (map (z_written stored_zlib (level small_config)) hs)
          @ put_trailer epoch_clock small_config (w_ulen s) (w_clen s) (w_check s)
              (snd (put_header epoch_clock small_config))
     \<and> (\<exists>x h. hs ! 0 = Deflate x UINT_MAX Z_SYNC_FLUSH # h)
     \<and> (\<exists>x h. hs ! 1 = Deflate x UINT_MAX Z_FINISH # h)"
proof -
  obtain s where s: "run small_config small_extern small_schedule (read_thread_init jobs_new [1, 2, 3]) = Some s"
    "w_pc s = W_done"
    using small_run by blast
  have r: "reach small_config small_extern (read_thread_init jobs_new [1, 2, 3]) s"
    using run_reach [OF s(1) reach_init] .
  have n: "nblocks (bsize small_config) [1, 2, 3 :: byte] = 2"
    by (simp add: nblocks_def small_config_def)
  have c: "ext_clock small_extern = epoch_clock" "ext_zlib small_extern = stored_zlib"
    by (simp_all add: small_extern_def)
  obtain hs where hs: "length hs = 2"
    "outd s = fst (put_header epoch_clock small_config)
          @ concat (map (z_written stored_zlib (level small_config)) hs)
          @ put_trailer epoch_clock small_config (w_ulen s) (w_clen s) (w_check s)
              (snd (put_header epoch_clock small_config))"
    "\<forall>i < 2. (length (block (bsize small_config) [1, 2, 3] i) < bsize small_config) = (i = 2 - 1)
        \<and> (\<exists>x h. hs ! i = Deflate x UINT_MAX (if i = 2 - 1 then Z_FINISH else Z_SYNC_FLUSH) # h
              \<and> no_flush_calls h)"
    using compress_thread_flush [OF small_sizes small_pool r s(2), of jobs_new 0] unfolding n c
    by blast
  have "\<exists>x h. hs ! 0 = Deflate x UINT_MAX Z_SYNC_FLUSH # h"
    using hs(3) [rule_format, of 0] by auto
  moreover have "\<exists>x h. hs ! 1 = Deflate x UINT_MAX Z_FINISH # h"
    using hs(3) [rule_format, of 1] by auto
  ultimately show ?thesis
    using s hs(1,2) by blast
qed

subsection \<open>Every step is progress\<close>

lemma finished_count_update:
  assumes "n < procs g" "\<And>j. j \<noteq> n \<Longrightarrow> job_comp (jobs s' j) = job_comp (jobs s j)"
  shows "finished_count g s' + (if job_comp (jobs s n) = Finished then 1 else 0)
       = finished_count g s + (if job_comp (jobs s' n) = Finished then 1 else 0)"
proof -
  let ?f = "\<lambda>s j. if job_comp (jobs s j) = Finished then 1 else (0 :: nat)"
  have fin: "finite {..<procs g}" and mem: "n \<in> {..<procs g}"
    using assms(1) by simp_all
  have "(\<Sum>j \<in> {..<procs g} - {n}. ?f s' j) = (\<Sum>j \<in> {..<procs g} - {n}. ?f s j)"
    by (rule sum.cong) (simp_all add: assms(2))
  then show ?thesis
    unfolding finished_count_def sum.remove [OF fin mem, of "?f s'"] sum.remove [OF fin mem, of "?f s"]
    by simp
qed

lemma finished_count_same:
  assumes "\<And>j. job_comp (jobs s' j) = job_comp (jobs s j)"
  shows "finished_count g s' = finished_count g s"
  by (simp add: finished_count_def assms)

lemma finished_count_le: "finished_count g s \<le> procs g"
proof -
  have "finished_count g s \<le> (\<Sum>j < procs g. 1)"
    unfolding finished_count_def by (rule sum_mono) simp
  then show ?thesis by simp
qed

lemma reader_step_progress:
  assumes inv: "pipeline_inv g ext inp rk wk ds s"
    and st: "reader_step g ext s = Some s'"
    and N: "0 < procs g"
  shows "progress g (if r_pc s = R_set then Suc rk else rk) wk s' = Suc (progress g rk wk s)"
proof -
  have F: "inv_flags g rk wk s" and R: "inv_reader g inp rk s"
    and T: "inv_threads g inp rk wk ds s"
    using inv by (simp_all add: pipeline_inv_def)
  note wf = reader_frame_writer [OF st] and pc = reader_pc_next [OF st]
  have j: "joined wk s' = joined wk s"
    by (simp add: joined_def wf)
  have w: "writer_done wk (w_pc s') = writer_done wk (w_pc s)"
    by (simp add: wf)
  have fc: "finished_count g s' = finished_count g s"
  proof (cases "r_pc s = R_create")
    case False
    have "job_comp (jobs s' k) = job_comp (jobs s k)" for k
      using st False
      by (cases "r_pc s") (auto simp add: reader_step_def Let_def job_init_def split: if_splits)
    then show ?thesis
      by (rule finished_count_same)
  next
    case True
    with st have s': "s' = s\<lparr>jobs := (jobs s)(r_n s := (jobs s (r_n s))
          \<lparr>job_len := r_got s, job_comp := Running\<rparr>), r_pc := R_set\<rparr>"
      by (simp add: reader_step_def Let_def)
    have rn: "r_n s = rk mod procs g"
      using R True by (simp add: inv_reader_def)
    then have lt: "r_n s < procs g"
      using N by simp
    have idle: "job_busy (jobs s (r_n s)) = IDLE"
      using flags_reader(2) [OF F] True by simp
    have "i mod procs g \<noteq> r_n s" if "joined wk s \<le> i" "i < created rk s" for i
    proof -
      have "wk \<le> i" "i < rk"
        using that joined_ge [of wk s] True by (simp_all add: created_def)
      then show ?thesis
        using slot_busy [OF F, of i] idle by auto
    qed
    then have "job_comp (jobs s (r_n s)) = NoThread"
      using threads_none [OF T lt] by simp
    then show ?thesis
      using finished_count_update [of "r_n s" g s' s] lt by (simp add: s')
  qed
  have rd: "reader_done (if r_pc s = R_set then Suc rk else rk) (r_pc s') = Suc (reader_done rk (r_pc s))"
    using pc st by (cases "r_pc s") (auto simp add: reader_done_def reader_step_def Let_def)
  show ?thesis
    unfolding progress_def j w fc rd by simp
qed

lemma compress_step_progress:
  assumes "compress_step g n s = Some s'"
  shows "progress g rk wk s' = Suc (progress g rk wk s)"
proof -
  note c = compress_step_cases [OF assms]
  have "finished_count g s' = Suc (finished_count g s)"
    using finished_count_update [of n g s' s] c(1,2) by (simp add: c(3))
  then show ?thesis
    by (simp add: progress_def joined_def c(3))
qed

lemma writer_step_progress:
  assumes inv: "pipeline_inv g ext inp rk wk ds s"
    and st: "writer_step g ext s = Some s'"
    and N: "0 < procs g"
  shows "progress g rk (if w_pc s = W_release then Suc wk else wk) s' = Suc (progress g rk wk s)"
proof -
  have W: "inv_writer g ext inp wk ds s"
    using inv by (simp add: pipeline_inv_def)
  note rf = writer_frame_reader [OF st]
  from st show ?thesis
  proof (cases rule: writer_step_cases)
    case header
    then show ?thesis
      by (simp add: progress_def joined_def writer_done_def finished_count_def)
  next
    case wait
    then show ?thesis
      by (simp add: progress_def joined_def writer_done_def finished_count_def)
  next
    case join
    have "w_n s < procs g"
      using writer_slot(1) [OF W] join N by simp
    then have "Suc (finished_count g s') = finished_count g s"
      using finished_count_update [of "w_n s" g s' s] join(2) by (simp add: join(3))
    then show ?thesis
      using join(1) by (simp add: progress_def joined_def writer_done_def join(3))
  next
    case setw
    have "finished_count g s' = finished_count g s"
      by (rule finished_count_same) (simp add: setw)
    then show ?thesis
      using setw(1) by (simp add: progress_def joined_def writer_done_def setw(2))
  next
    case emit
    then show ?thesis
      by (simp add: progress_def joined_def writer_done_def finished_count_def)
  next
    case release
    have "finished_count g s' = finished_count g s"
      by (rule finished_count_same) (simp add: release)
    then show ?thesis
      using release(1) by (simp add: progress_def joined_def writer_done_def release(2))
  next
    case trailer
    then show ?thesis
      by (simp add: progress_def joined_def writer_done_def finished_count_def)
  qed
qed

lemma thread_step_progress:
  assumes inv: "pipeline_inv g ext inp rk wk ds s"
    and st: "thread_step g ext t s = Some s'"
    and S: "0 < bsize g" and N: "0 < procs g"
  shows "\<exists>rk' wk' ds'. pipeline_inv g ext inp rk' wk' ds' s'
    \<and> progress g rk' wk' s' = Suc (progress g rk wk s)"
proof (cases t)
  case Reader
  then have st': "reader_step g ext s = Some s'"
    using st by (simp add: thread_step_def)
  have "pipeline_inv g ext inp (if r_pc s = R_set then Suc rk else rk) wk ds s'"
    using reader_inv_reader [OF inv st' S N] reader_inv_flags [OF inv st' N]
      reader_inv_threads [OF inv st' N] reader_inv_writer [OF inv st']
    unfolding pipeline_inv_def by blast
  then show ?thesis
    using reader_step_progress [OF inv st' N] by blast
next
  case Writer
  then have st': "writer_step g ext s = Some s'"
    using st by (simp add: thread_step_def)
  have "pipeline_inv g ext inp rk (if w_pc s = W_release then Suc wk else wk) ds s'"
    using writer_inv_reader [OF inv st'] writer_inv_flags [OF inv st' N]
      writer_inv_threads [OF inv st' N] writer_inv_writer [OF inv st' S N]
    unfolding pipeline_inv_def by blast
  then show ?thesis
    using writer_step_progress [OF inv st' N] by blast
next
  case (Compressor n)
  then have st': "compress_step g n s = Some s'"
    using st by (simp add: thread_step_def)
  then show ?thesis
    using compress_step_inv [OF inv st' N] compress_step_progress [OF st'] by blast
qed

lemma run_progress:
  assumes "run g ext sched s0 = Some s" "pipeline_inv g ext inp rk wk ds s0"
    and "0 < bsize g" "0 < procs g"
  shows "\<exists>rk' wk' ds'. pipeline_inv g ext inp rk' wk' ds' s
    \<and> progress g rk' wk' s = progress g rk wk s0 + length sched"
  using assms(1,2)
proof (induction sched arbitrary: s0 rk wk ds)
  case Nil
  then show ?case by auto
next
  case (Cons t ts)
  from Cons.prems(1) obtain s1 where s1: "thread_step g ext t s0 = Some s1" "run g ext ts s1 = Some s"
    by (auto split: option.splits)
  obtain rk1 wk1 ds1 where 1: "pipeline_inv g ext inp rk1 wk1 ds1 s1"
    "progress g rk1 wk1 s1 = Suc (progress g rk wk s0)"
    using thread_step_progress [OF Cons.prems(2) s1(1) assms(3,4)] by blast
  show ?case
    using Cons.IH [OF s1(2) 1(1)] 1(2) by auto
qed

lemma progress_bound:
  assumes inv: "pipeline_inv g ext inp rk wk ds s"
  shows "progress g rk wk s \<le> 13 * nblocks (bsize g) inp + procs g + 3"
proof -
  have R: "inv_reader g inp rk s" and W: "inv_writer g ext inp wk ds s"
    using inv by (simp_all add: pipeline_inv_def)
  have r: "reader_done rk (r_pc s) \<le> 7 * nblocks (bsize g) inp + 1"
    using R by (cases "r_pc s") (simp_all add: inv_reader_def reader_done_def nblocks_def)
  have w: "writer_done wk (w_pc s) + joined wk s \<le> 6 * nblocks (bsize g) inp + 2"
    using writer_slot(2) [OF W] writer_misc [OF W]
    by (cases "w_pc s") (simp_all add: writer_done_def joined_def nblocks_def)
  show ?thesis
    using r w finished_count_le [of g s] by (simp add: progress_def)
qed

text \<open>The schedules of the pipeline are of bounded length.\<close>

lemma run_bounded:
  assumes "run g ext sched (read_thread_init js inp) = Some s" "pool_idle g js"
    and "0 < bsize g" "0 < procs g"
  shows "length sched \<le> 13 * nblocks (bsize g) inp + procs g + 3"
proof -
  obtain rk wk ds where inv: "pipeline_inv g ext inp rk wk ds s"
    and p: "progress g rk wk s = progress g 0 0 (read_thread_init js inp) + length sched"
    using run_progress [OF assms(1) pipeline_inv_init [OF assms(2,4)] assms(3,4)] by blast
  show ?thesis
    using progress_bound [OF inv] p by simp
qed

subsection \<open>No deadlock\<close>

lemma NEXT_less: "n < procs g \<Longrightarrow> NEXT g n < procs g"
  by (auto simp add: NEXT_def)

lemma reader_inv_slot:
  assumes "inv_reader g inp rk s" "r_pc s \<notin> {R_join, R_done}"
  shows "r_n s = rk mod procs g" "rk \<le> length inp div bsize g"
  using assms unfolding inv_reader_def by blast+

lemma reader_inv_end:
  assumes "inv_reader g inp rk s" "r_pc s \<in> {R_join, R_done}"
  shows "rk = length inp div bsize g + 1"
  using assms unfolding inv_reader_def by blast

lemma writer_enabled:
  assumes "w_pc s \<in> {W_header, W_setw, W_write, W_release, W_trailer}"
  shows "\<exists>s'. writer_step g ext s = Some s'"
  using assms by (auto simp add: writer_step_def Let_def)

lemma reader_enabled:
  assumes "r_pc s \<in> {R_init, R_read, R_create, R_set}"
  shows "\<exists>s'. reader_step g ext s = Some s'"
  using assms by (auto simp add: reader_step_def Let_def)

lemma pipeline_progress:
  assumes inv: "pipeline_inv g ext inp rk wk ds s"
    and N: "0 < procs g" and nd: "r_pc s \<noteq> R_done"
  shows "\<exists>t s'. thread_step g ext t s = Some s'"
proof -
  have F: "inv_flags g rk wk s" and R: "inv_reader g inp rk s"
    and T: "inv_threads g inp rk wk ds s" and W: "inv_writer g ext inp wk ds s"
    using inv by (simp_all add: pipeline_inv_def)
  have writer: "\<exists>t s'. thread_step g ext t s = Some s'" if "\<exists>s'. writer_step g ext s = Some s'"
    using that by (auto simp add: thread_step_def intro: exI [of _ Writer])
  have reader: "\<exists>t s'. thread_step g ext t s = Some s'" if "\<exists>s'. reader_step g ext s = Some s'"
    using that by (auto simp add: thread_step_def intro: exI [of _ Reader])
  consider (free) "w_pc s \<in> {W_header, W_setw, W_write, W_release, W_trailer}"
    | (wait) "w_pc s = W_wait" | (join) "w_pc s = W_join" | (fin) "w_pc s = W_done"
    by (cases "w_pc s") simp_all
  then show ?thesis
  proof cases
    case free
    then show ?thesis
      by (intro writer writer_enabled)
  next
    case join
    have n: "w_n s = wk mod procs g"
      using writer_slot(1) [OF W] join by simp
    have lt: "wk < rk"
      using window_nonempty [OF F] join by simp
    have "job_comp (jobs s (w_n s)) = Running \<or> job_comp (jobs s (w_n s)) = Finished"
      using threads_window [OF T, of wk] lt created_le(2) [OF F] join
      by (auto simp add: joined_def n)
    then show ?thesis
    proof
      assume "job_comp (jobs s (w_n s)) = Running"
      then have "\<exists>s'. compress_step g (w_n s) s = Some s'"
        using n N by (simp add: compress_step_def)
      then show ?thesis
        by (auto simp add: thread_step_def intro: exI [of _ "Compressor (w_n s)"])
    next
      assume "job_comp (jobs s (w_n s)) = Finished"
      then show ?thesis
        using join by (intro writer) (simp add: writer_step_def Let_def)
    qed
  next
    case fin
    have wk: "wk = length inp div bsize g + 1"
      using writer_misc(3) [OF W] fin by simp
    have "r_pc s = R_join"
    proof (rule ccontr)
      assume "r_pc s \<noteq> R_join"
      then have "rk \<le> length inp div bsize g"
        using reader_inv_slot(2) [OF R] nd by simp
      then show False
        using flags_bounds(1) [OF F] wk by simp
    qed
    then show ?thesis
      using fin by (intro reader) (simp add: reader_step_def Let_def)
  next
    case wait
    have n: "w_n s = wk mod procs g" and wl: "wk \<le> length inp div bsize g"
      using writer_slot [OF W] wait by simp_all
    show ?thesis
    proof (cases "job_busy (jobs s (w_n s)) = COMP")
      case True
      then show ?thesis
        using wait by (intro writer) (simp add: writer_step_def Let_def)
    next
      case False
      have eq: "rk = wk"
      proof (rule ccontr)
        assume "rk \<noteq> wk"
        then have "wk < rk"
          using flags_bounds(1) [OF F] by simp
        then have "job_busy (jobs s (wk mod procs g)) = COMP"
          using flags_window [OF F, of wk] wait by simp
        with False n show False by simp
      qed
      have idle: "job_busy (jobs s j) = IDLE" if "j < procs g" for j
        using flags_idle [OF F that] eq by simp
      have rj: "r_pc s \<noteq> R_join"
      proof
        assume "r_pc s = R_join"
        then have "rk = length inp div bsize g + 1"
          using reader_inv_end [OF R] by simp
        with eq wl show False by simp
      qed
      then have rn: "r_n s < procs g"
        using reader_inv_slot(1) [OF R] nd N by simp
      consider "r_pc s \<in> {R_init, R_read, R_create, R_set}" | "r_pc s = R_wait1"
        | "r_pc s = R_wait2" | "r_pc s = R_wait3"
        using nd rj by (cases "r_pc s") simp_all
      then show ?thesis
      proof cases
        case 1
        then show ?thesis
          by (intro reader reader_enabled)
      next
        case 2
        then show ?thesis
          using idle [OF rn] by (intro reader) (simp add: reader_step_def Let_def)
      next
        case 3
        then show ?thesis
          using idle [OF NEXT_less [OF rn]] by (intro reader) (simp add: reader_step_def Let_def)
      next
        case 4
        then show ?thesis
          using idle [OF rn] by (intro reader) (simp add: reader_step_def Let_def)
      qed
    qed
  qed
qed

lemma reach_joined:
  assumes "reach g ext s0 s" "r_pc s0 = R_done \<longrightarrow> w_pc s0 = W_done"
  shows "r_pc s = R_done \<longrightarrow> w_pc s = W_done"
  using assms(1)
proof (induction rule: reach.induct)
  case reach_init
  show ?case by (rule assms(2))
next
  case (reach_step s s')
  from reach_step.hyps(2) obtain t where t: "thread_step g ext t s = Some s'"
    by (auto simp add: step_def)
  show ?case
  proof (cases t)
    case Reader
    with t have "reader_step g ext s = Some s'"
      by (simp add: thread_step_def)
    then show ?thesis
      using reach_step.IH
      by (cases "r_pc s") (auto simp add: reader_step_def Let_def split: if_splits)
  next
    case Writer
    with t have st: "writer_step g ext s = Some s'"
      by (simp add: thread_step_def)
    then have "w_pc s \<noteq> W_done"
      by (auto simp add: writer_step_def Let_def)
    then show ?thesis
      using reach_step.IH writer_frame_reader(1) [OF st] by simp
  next
    case (Compressor n)
    with t have "compress_step g n s = Some s'"
      by (simp add: thread_step_def)
    then show ?thesis
      using reach_step.IH compress_step_cases(3) by fastforce
  qed
qed

lemma run_append:
  "run g ext (a @ b) s = (case run g ext a s of None \<Rightarrow> None | Some s' \<Rightarrow> run g ext b s')"
  by (induction a arbitrary: s) (simp_all split: option.splits)

lemma run_inv:
  assumes "run g ext sched (read_thread_init js inp) = Some s" "pool_idle g js"
    and "0 < bsize g" "0 < procs g"
  shows "\<exists>rk wk ds. pipeline_inv g ext inp rk wk ds s"
  using reach_inv [OF run_reach [OF assms(1) reach_init] assms(2-4)] .

lemma run_completes:
  assumes "pool_idle g js" "0 < bsize g" "0 < procs g"
  shows "run g ext sched (read_thread_init js inp) = Some s \<Longrightarrow>
    \<exists>sched' s'. run g ext (sched @ sched') (read_thread_init js inp) = Some s' \<and> r_pc s' = R_done"
proof (induction "13 * nblocks (bsize g) inp + procs g + 3 - length sched" arbitrary: sched s
    rule: less_induct)
  case less
  show ?case
  proof (cases "r_pc s = R_done")
    case True
    with less.prems show ?thesis
      by (intro exI [of _ "[]"]) simp
  next
    case False
    obtain rk wk ds where "pipeline_inv g ext inp rk wk ds s"
      using run_inv [OF less.prems assms] by blast
    then obtain t s1 where t: "thread_step g ext t s = Some s1"
      using pipeline_progress [OF _ assms(3) False] by blast
    have r1: "run g ext (sched @ [t]) (read_thread_init js inp) = Some s1"
      using less.prems t by (simp add: run_append)
    have "length (sched @ [t]) \<le> 13 * nblocks (bsize g) inp + procs g + 3"
      using run_bounded [OF r1 assms] .
    then have "13 * nblocks (bsize g) inp + procs g + 3 - length (sched @ [t])
        < 13 * nblocks (bsize g) inp + procs g + 3 - length sched"
      by simp
    then obtain sched' s' where
      "run g ext ((sched @ [t]) @ sched') (read_thread_init js inp) = Some s'" "r_pc s' = R_done"
      using less.hyps [OF _ r1] by blast
    then show ?thesis
      by (intro exI [of _ "t # sched'"]) simp
  qed
qed

lemma block_after_full:
  assumes "0 < S" "0 < k" "length inp = k * S"
  shows "nblocks S inp = k + 1" "block S inp k = []"
  using assms by (simp_all add: nblocks_def block_def)

lemma upt_last_block: "0 < m \<Longrightarrow> [0..<m] = [0..<m - 1] @ [m - 1]"
  by (cases m) simp_all

text \<open>
  C10. For every input and every schedule: the run is of bounded length, it can take a
  step as long as the reader has not returned, it can be completed, and the reader returns
  only after the writer. When the writer has finished, the stream ends with the output of
  a last block that is shorter than the block size and whose last deflate call is a
  finish. If the length of the input is a positive multiple \<open>k\<close> of the block size, there
  are \<open>k + 1\<close> blocks and the last is the empty one the extra read returns: its compressor
  sets no dictionary and makes the one call that finishes the stream.
\<close>

theorem final_block_finish:
  assumes "1 < procs g" "0 < bsize g" "pool_idle g js"
    and "run g ext sched (read_thread_init js inp) = Some s"
  shows "length sched \<le> 13 * nblocks (bsize g) inp + procs g + 3
    \<and> (r_pc s \<noteq> R_done \<longrightarrow> (\<exists>t s'. thread_step g ext t s = Some s'))
    \<and> (\<exists>sched' s'. run g ext (sched @ sched') (read_thread_init js inp) = Some s'
          \<and> r_pc s' = R_done)
    \<and> (r_pc s = R_done \<longrightarrow> w_pc s = W_done)
    \<and> (w_pc s = W_done \<longrightarrow>
         (\<exists>ds final. final = snd (compress_result g (ds (nblocks (bsize g) inp - 1))
                              (block (bsize g) inp (nblocks (bsize g) inp - 1)))
           \<and> outd s = fst (put_header (ext_clock ext) g)
               @ concat (map (block_out g ext inp ds) [0..<nblocks (bsize g) inp - 1])
               @ z_written (ext_zlib ext) (level g) final
               @ put_trailer (ext_clock ext) g (w_ulen s) (w_clen s) (w_check s)
                   (snd (put_header (ext_clock ext) g))
           \<and> length (block (bsize g) inp (nblocks (bsize g) inp - 1)) < bsize g
           \<and> (\<exists>x h. final = Deflate x UINT_MAX Z_FINISH # h \<and> no_flush_calls h)
           \<and> (\<forall>k > 0. length inp = k * bsize g \<longrightarrow>
                 nblocks (bsize g) inp = k + 1 \<and> block (bsize g) inp k = []
                 \<and> final = [Deflate [] UINT_MAX Z_FINISH])))"
proof -
  have N: "0 < procs g"
    using assms(1) by simp
  note S = assms(2)
  let ?m = "nblocks (bsize g) inp"
  have r: "reach g ext (read_thread_init js inp) s"
    using run_reach [OF assms(4) reach_init] .
  obtain rk wk ds0 where inv: "pipeline_inv g ext inp rk wk ds0 s"
    using reach_inv [OF r assms(3) S N] by blast
  have 1: "length sched \<le> 13 * ?m + procs g + 3"
    using run_bounded [OF assms(4,3) S N] .
  have 2: "r_pc s \<noteq> R_done \<longrightarrow> (\<exists>t s'. thread_step g ext t s = Some s')"
    using pipeline_progress [OF inv N] by blast
  have 3: "\<exists>sched' s'. run g ext (sched @ sched') (read_thread_init js inp) = Some s'
      \<and> r_pc s' = R_done"
    using run_completes [OF assms(3) S N assms(4)] .
  have 4: "r_pc s = R_done \<longrightarrow> w_pc s = W_done"
    using reach_joined [OF r] by (simp add: read_thread_init_def)
  have 5: "\<exists>ds final. final = snd (compress_result g (ds (?m - 1)) (block (bsize g) inp (?m - 1)))
       \<and> outd s = fst (put_header (ext_clock ext) g)
           @ concat (map (block_out g ext inp ds) [0..<?m - 1])
           @ z_written (ext_zlib ext) (level g) final
           @ put_trailer (ext_clock ext) g (w_ulen s) (w_clen s) (w_check s)
               (snd (put_header (ext_clock ext) g))
       \<and> length (block (bsize g) inp (?m - 1)) < bsize g
       \<and> (\<exists>x h. final = Deflate x UINT_MAX Z_FINISH # h \<and> no_flush_calls h)
       \<and> (\<forall>k > 0. length inp = k * bsize g \<longrightarrow>
             ?m = k + 1 \<and> block (bsize g) inp k = [] \<and> final = [Deflate [] UINT_MAX Z_FINISH])"
    if w: "w_pc s = W_done"
  proof -
    obtain ds where ds: "outd s = fst (put_header (ext_clock ext) g)
           @ concat (map (block_out g ext inp ds) [0..<?m])
           @ put_trailer (ext_clock ext) g (w_ulen s) (w_clen s) (w_check s)
               (snd (put_header (ext_clock ext) g))"
      using finished_stream [OF r assms(3) S N w] by blast
    define final where "final = snd (compress_result g (ds (?m - 1)) (block (bsize g) inp (?m - 1)))"
    have m: "0 < ?m"
      by (simp add: nblocks_def)
    have short: "length (block (bsize g) inp (?m - 1)) < bsize g"
      using blocks_short_last [OF S, of "?m - 1" inp] m by simp
    have out: "outd s = fst (put_header (ext_clock ext) g)
           @ concat (map (block_out g ext inp ds) [0..<?m - 1])
           @ z_written (ext_zlib ext) (level g) final
           @ put_trailer (ext_clock ext) g (w_ulen s) (w_clen s) (w_check s)
               (snd (put_header (ext_clock ext) g))"
      unfolding ds by (subst upt_last_block [OF m]) (simp add: block_out_def final_def)
    have fin: "\<exists>x h. final = Deflate x UINT_MAX Z_FINISH # h \<and> no_flush_calls h"
      using compress_result_calls [of g "ds (?m - 1)" "block (bsize g) inp (?m - 1)"] short
      by (simp add: final_def)
    have mult: "?m = k + 1 \<and> block (bsize g) inp k = [] \<and> final = [Deflate [] UINT_MAX Z_FINISH]"
      if "0 < k" "length inp = k * bsize g" for k
      using block_after_full [OF S that] compress_result_empty [OF S, of "ds k"]
      by (simp add: final_def)
    show ?thesis
      using out short fin mult final_def by blast
  qed
  show ?thesis
    using 1 2 3 4 5 by blast
qed

lemma small_run_even:
  "\<exists>s. run small_config small_extern small_schedule (read_thread_init jobs_new [1, 2]) = Some s
     \<and> w_pc s = W_done \<and> r_pc s = R_done"
  by (simp add: small_defs)

theorem final_block_finish_witness:
  "\<exists>s ds. run small_config small_extern small_schedule (read_thread_init jobs_new [1, 2]) = Some s
     \<and> r_pc s = R_done \<and> w_pc s = W_done
     \<and> length small_schedule \<le> 13 * nblocks 2 [1, 2 :: byte] + 2 + 3
     \<and> length [1, 2 :: byte] = 1 * bsize small_config
     \<and> nblocks 2 [1, 2 :: byte] = 1 + 1 \<and> block 2 [1, 2 :: byte] 1 = []
     \<and> snd (compress_result small_config (ds 1) (block 2 [1, 2] 1)) = [Deflate [] UINT_MAX Z_FINISH]
     \<and> outd s = fst (put_header epoch_clock small_config)
         @ concat (map (block_out small_config small_extern [1, 2] ds) [0..<1])
         @ z_written stored_zlib (level small_config) [Deflate [] UINT_MAX Z_FINISH]
         @ put_trailer epoch_clock small_config (w_ulen s) (w_clen s) (w_check s)
             (snd (put_header epoch_clock small_config))"
proof -
  obtain s where s: "run small_config small_extern small_schedule (read_thread_init jobs_new [1, 2]) = Some s"
    "w_pc s = W_done" "r_pc s = R_done"
    using small_run_even by blast
  have b: "bsize small_config = 2" "procs small_config = 2"
    "ext_clock small_extern = epoch_clock" "ext_zlib small_extern = stored_zlib"
    by (simp_all add: small_config_def small_extern_def)
  have k: "(0 :: nat) < 1" "length [1, 2 :: byte] = 1 * 2"
    by simp_all
  note th = final_block_finish [OF small_sizes small_pool s(1), unfolded b]
  have len: "length small_schedule \<le> 13 * nblocks 2 [1, 2 :: byte] + 2 + 3"
    using th by blast
  obtain ds final where f: "final = snd (compress_result small_config (ds (nblocks 2 [1, 2 :: byte] - 1))
        (block 2 [1, 2] (nblocks 2 [1, 2 :: byte] - 1)))"
    "outd s = fst (put_header epoch_clock small_config)
         @ concat (map (block_out small_config small_extern [1, 2] ds) [0..<nblocks 2 [1, 2 :: byte] - 1])
         @ z_written stored_zlib (level small_config) final
         @ put_trailer epoch_clock small_config (w_ulen s) (w_clen s) (w_check s)
             (snd (put_header epoch_clock small_config))"
    "\<forall>k > 0. length [1, 2 :: byte] = k * 2 \<longrightarrow>
        nblocks 2 [1, 2 :: byte] = k + 1 \<and> block 2 [1, 2 :: byte] k = []
        \<and> final = [Deflate [] UINT_MAX Z_FINISH]"
    using th s(2) by blast
  have m: "nblocks 2 [1, 2 :: byte] = 1 + 1" "block 2 [1, 2 :: byte] 1 = []"
    "final = [Deflate [] UINT_MAX Z_FINISH]"
    using f(3) [rule_format, OF k] by simp_all
  show ?thesis
    using s len m f(1,2) b(1) unfolding m(1) by (intro exI [of _ s] exI [of _ ds]) simp
qed


end
